theory Spec2Isabelle
  imports Main
begin

section \<open>The F4PGA build system: dependency resolution and incremental build\<close>

text \<open>
  A shallow embedding of \<^verbatim>\<open>src/f4pga/__init__.py\<close>: the existence check, the
  output-ownership map, the staleness queries, the planning pass
  (\<^verbatim>\<open>Flow._resolve_dependencies\<close>) and the execution pass (\<^verbatim>\<open>Flow._build_dep\<close>).
\<close>

subsection \<open>Data model\<close>

text \<open>
  The value of a resolved dependency is an untyped Python value that the code dispatches
  on with \<^verbatim>\<open>type(r) is str\<close>, \<^verbatim>\<open>type(r) is list\<close>, \<^verbatim>\<open>type(r) is dict\<close>;
  \<^verbatim>\<open>None\<close> stands for an unresolved dependency. A dict keeps its insertion order, so
  it is an association list.
\<close>

datatype pyval =
    PNone
  | PStr string
  | PList "pyval list"
  | PDict "(string \<times> pyval) list"

text \<open>Python truthiness, as used by \<^verbatim>\<open>if not paths\<close>.\<close>

fun truthy :: "pyval \<Rightarrow> bool" where
  "truthy PNone = False"
| "truthy (PStr s) = (s \<noteq> [])"
| "truthy (PList xs) = (xs \<noteq> [])"
| "truthy (PDict kvs) = (kvs \<noteq> [])"

text \<open>
  The requirement kind of a stage input or output: the strings \<^verbatim>\<open>'req'\<close>,
  \<^verbatim>\<open>'maybe'\<close> and \<^verbatim>\<open>'demand'\<close> of the source.
\<close>

datatype spec_kind = Req | Maybe | Demand

record stage_io =
  io_name :: string
  io_spec :: spec_kind

text \<open>
  A stage. The source compares stages by object identity; the stages of a flow are the
  values of a dict keyed by stage name, so two different stage objects differ in their
  \<open>name\<close> and identity coincides with equality of the records.
\<close>

record stage =
  name :: string
  modulestr :: string
  takes :: "stage_io list"
  produces :: "stage_io list"

text \<open>Every exception the modelled code can raise.\<close>

datatype error =
    ReqExistsError pyval
  | DuplicateProvider string string string
  | FatalWrongPathsType
  | FatalNoMapping string string
  | DependencyNotProducedException string string
  | AssertionError
  | KeyError string
  | RecursionError
  | ModuleError string

text \<open>\<^verbatim>\<open>d.get(k)\<close> and \<^verbatim>\<open>d[k]\<close> on a dict whose values may themselves be \<^verbatim>\<open>None\<close>.\<close>

definition dict_get :: "(string \<rightharpoonup> pyval) \<Rightarrow> string \<Rightarrow> pyval" where
  "dict_get d k = (case d k of None \<Rightarrow> PNone | Some v \<Rightarrow> v)"

definition dict_index :: "(string \<rightharpoonup> pyval) \<Rightarrow> string \<Rightarrow> error + pyval" where
  "dict_index d k = (case d k of None \<Rightarrow> Inl (KeyError k) | Some v \<Rightarrow> Inr v)"

subsection \<open>Existence of a dependency on storage\<close>

text \<open>
  \<^verbatim>\<open>req_exists\<close>. The first argument is the storage query \<^verbatim>\<open>Path(r).exists()\<close>.
  \<^verbatim>\<open>False in map(req_exists, r)\<close> walks a lazy \<^verbatim>\<open>map\<close> and stops at the first
  \<^verbatim>\<open>False\<close>; an element that raises before that aborts the whole check.
\<close>

fun req_exists :: "(string \<Rightarrow> bool) \<Rightarrow> pyval \<Rightarrow> error + bool"
  and false_in_map_req_exists :: "(string \<Rightarrow> bool) \<Rightarrow> pyval list \<Rightarrow> error + bool"
where
  "req_exists ex (PStr r) = (if \<not> ex r then Inr False else Inr True)"
| "req_exists ex (PList rs) =
     (case false_in_map_req_exists ex rs of
        Inl e \<Rightarrow> Inl e
      | Inr found \<Rightarrow> Inr (\<not> found))"
| "req_exists ex (PDict kvs) = Inl (ReqExistsError (PDict kvs))"
| "req_exists ex PNone = Inl (ReqExistsError PNone)"
| "false_in_map_req_exists ex [] = Inr False"
| "false_in_map_req_exists ex (r # rs) =
     (case req_exists ex r of
        Inl e \<Rightarrow> Inl e
      | Inr b \<Rightarrow> if b = False then Inr True else false_in_map_req_exists ex rs)"

text \<open>Path values built from strings and lists only.\<close>

fun str_or_list :: "pyval \<Rightarrow> bool" where
  "str_or_list (PStr r) = True"
| "str_or_list (PList rs) = list_all str_or_list rs"
| "str_or_list (PDict kvs) = False"
| "str_or_list PNone = False"

subsection \<open>The output-ownership map\<close>

text \<open>
  \<^verbatim>\<open>map_outputs_to_stages\<close>: the inner loop over \<^verbatim>\<open>stage.produces\<close>, the outer loop
  over the stages. A stage object is truthy, so \<^verbatim>\<open>not os_map.get(output.name)\<close> holds
  exactly when the name has no entry yet.
\<close>

fun register_outputs ::
  "stage \<Rightarrow> stage_io list \<Rightarrow> (string \<rightharpoonup> stage) \<Rightarrow> error + (string \<rightharpoonup> stage)" where
  "register_outputs stg [] os = Inr os"
| "register_outputs stg (output # outs) os =
     (case os (io_name output) of
        None \<Rightarrow> register_outputs stg outs (os(io_name output \<mapsto> stg))
      | Some owner \<Rightarrow>
          if owner \<noteq> stg
          then Inl (DuplicateProvider (io_name output) (name owner) (name stg))
          else register_outputs stg outs os)"

fun register_stages ::
  "stage list \<Rightarrow> (string \<rightharpoonup> stage) \<Rightarrow> error + (string \<rightharpoonup> stage)" where
  "register_stages [] os = Inr os"
| "register_stages (stg # stgs) os =
     (case register_outputs stg (produces stg) os of
        Inl e \<Rightarrow> Inl e
      | Inr os' \<Rightarrow> register_stages stgs os')"

definition map_outputs_to_stages :: "stage list \<Rightarrow> error + (string \<rightharpoonup> stage)" where
  "map_outputs_to_stages stgs = register_stages stgs Map.empty"

text \<open>The names a stage declares as outputs.\<close>

definition out_names :: "stage \<Rightarrow> string set" where
  "out_names stg = io_name ` set (produces stg)"

text \<open>Two distinct stages of the list declare an output of the same name.\<close>

definition shared_output :: "stage list \<Rightarrow> bool" where
  "shared_output stgs =
     (\<exists>s1 \<in> set stgs. \<exists>s2 \<in> set stgs. s1 \<noteq> s2 \<and> out_names s1 \<inter> out_names s2 \<noteq> {})"

subsection \<open>External collaborators\<close>

text \<open>
  The diagnostics printed with \<^verbatim>\<open>sfprint\<close> and the invocations of a module's
  execution operation, in the order in which they happen.
\<close>

datatype event =
    Unreachable string string
  | CausingRebuild string string
  | Unresolved string
  | SkipRebuild string
  | Exec string
  | TargetReport string pyval

text \<open>
  The configuration handed to a module: the dict built by \<^verbatim>\<open>prepare_stage_input\<close>.
\<close>

record modrunctx =
  ctx_takes :: "string \<rightharpoonup> pyval"
  ctx_produces :: "string \<rightharpoonup> pyval"
  ctx_values :: "string \<rightharpoonup> pyval"

text \<open>
  The parts of the program that live outside \<^verbatim>\<open>src/\<close> are parameters of the model:
  \<^item> \<open>path_exists\<close>: \<^verbatim>\<open>Path(p).exists()\<close> on the storage \<open>'w\<close>;
  \<^item> \<open>cache_update\<close>, \<open>cache_get_status\<close>: \<^verbatim>\<open>F4Cache.update\<close> and
    \<^verbatim>\<open>F4Cache.get_status\<close> on the cache \<open>'c\<close>;
  \<^item> \<open>cache_deps\<close>: \<^verbatim>\<open>_cache_deps = deep(_process_dep_path)\<close>, which calls
    \<^verbatim>\<open>F4Cache.process_file\<close>;
  \<^item> \<open>module_map\<close>, \<open>module_exec\<close>: the module's output-path prediction and its
    execution, either of which may raise; the dict returned by \<open>module_map\<close> is an
    association list with distinct keys;
  \<^item> \<open>r_env_values\<close>: \<^verbatim>\<open>cfg.get_r_env(stage).values\<close>, which sees the stage's value
    overrides;
  \<^item> \<open>stages\<close>, \<open>dependency_overrides\<close>: \<^verbatim>\<open>cfg.stages.values()\<close> and
    \<^verbatim>\<open>cfg.get_dependency_overrides()\<close>.
\<close>

record ('w, 'c) env =
  path_exists :: "'w \<Rightarrow> string \<Rightarrow> bool"
  cache_update :: "'c \<Rightarrow> 'w \<Rightarrow> string \<Rightarrow> string \<Rightarrow> bool \<times> 'c"
  cache_get_status :: "'c \<Rightarrow> 'w \<Rightarrow> string \<Rightarrow> string \<Rightarrow> pyval"
  cache_deps :: "pyval \<Rightarrow> 'w \<Rightarrow> 'c \<Rightarrow> 'c"
  module_map :: "stage \<Rightarrow> modrunctx \<Rightarrow> 'w \<Rightarrow> error + (string \<times> pyval) list"
  module_exec :: "stage \<Rightarrow> modrunctx \<Rightarrow> 'w \<Rightarrow> error + 'w"
  r_env_values :: "string \<Rightarrow> (string \<rightharpoonup> pyval) \<Rightarrow> (string \<rightharpoonup> pyval)"
  stages :: "stage list"
  dependency_overrides :: "(string \<times> pyval) list"

text \<open>
  The fields of \<^verbatim>\<open>Flow\<close>, together with what the code reaches through references: the
  value overrides of each stage (by stage name), the two sets that
  \<^verbatim>\<open>_resolve_dependencies\<close> passes down its recursion, the storage, and the output.
\<close>

record ('w, 'c) flow =
  os_map :: "string \<rightharpoonup> stage"
  dep_paths :: "string \<rightharpoonup> pyval"
  run_stages :: "string set"
  deps_rebuilds :: "string \<rightharpoonup> int"
  f4cache :: "'c option"
  value_overrides :: "string \<Rightarrow> (string \<rightharpoonup> pyval)"
  stages_checked :: "string set"
  skip_dep_warnings :: "string set"
  storage :: 'w
  out :: "event list"

definition dep_value_str :: "string \<Rightarrow> string" where
  "dep_value_str dep = CHR '':'' # dep"

definition sfprint :: "event \<Rightarrow> ('w, 'c) flow \<Rightarrow> ('w, 'c) flow" where
  "sfprint ev st = st\<lparr>out := out st @ [ev]\<rparr>"

definition exists_on :: "('w, 'c) env \<Rightarrow> ('w, 'c) flow \<Rightarrow> pyval \<Rightarrow> error + bool" where
  "exists_on X st r = req_exists (path_exists X (storage st)) r"

subsection \<open>Preparing a module's configuration\<close>

text \<open>\<^verbatim>\<open>filter_existing_deps\<close>: a comprehension over the items, which stops at a raise.\<close>

fun filter_existing_deps ::
  "('w, 'c) env \<Rightarrow> 'w \<Rightarrow> (string \<times> pyval) list \<Rightarrow> error + (string \<times> pyval) list" where
  "filter_existing_deps X w [] = Inr []"
| "filter_existing_deps X w ((n, p) # deps) =
     (case req_exists (path_exists X w) p of
        Inl e \<Rightarrow> Inl e
      | Inr b \<Rightarrow>
          (case filter_existing_deps X w deps of
             Inl e \<Rightarrow> Inl e
           | Inr kept \<Rightarrow> Inr (if b then (n, p) # kept else kept)))"

definition prepare_stage_input ::
  "stage \<Rightarrow> (string \<rightharpoonup> pyval) \<Rightarrow> (string \<rightharpoonup> pyval) \<Rightarrow> (string \<rightharpoonup> pyval) \<Rightarrow> modrunctx" where
  "prepare_stage_input stg vals dps config_paths =
     \<lparr>ctx_takes =
        fold (\<lambda>take tk.
                let paths = dict_get dps (io_name take)
                in if truthy paths then tk(io_name take \<mapsto> paths) else tk)
             (takes stg) Map.empty,
      ctx_produces =
        fold (\<lambda>prod pr.
                if truthy (dict_get dps (io_name prod))
                then pr(io_name prod \<mapsto> dict_get dps (io_name prod))
                else if truthy (dict_get config_paths (io_name prod))
                then pr(io_name prod \<mapsto> dict_get config_paths (io_name prod))
                else pr)
             (produces stg) Map.empty,
      ctx_values = vals\<rparr>"

definition config_mod_runctx :: "('w, 'c) env \<Rightarrow> stage \<Rightarrow> ('w, 'c) flow \<Rightarrow> modrunctx" where
  "config_mod_runctx X stg st =
     prepare_stage_input stg
       (r_env_values X (name stg) (value_overrides st (name stg)))
       (dep_paths st) (map_of (dependency_overrides X))"

subsection \<open>Staleness queries\<close>

text \<open>
  \<^verbatim>\<open>update_dep_statuses\<close>. The \<^verbatim>\<open>return\<close> sits inside the \<^verbatim>\<open>for\<close> loops, so a list
  or a dict is answered by its first element; with no element the loop falls through to
  \<^verbatim>\<open>fatal(-1, 'WRONG PATHS TYPE')\<close>.
\<close>

fun update_dep_statuses ::
  "('w, 'c) env \<Rightarrow> 'w \<Rightarrow> pyval \<Rightarrow> string \<Rightarrow> 'c \<Rightarrow> error + (bool \<times> 'c)" where
  "update_dep_statuses X w (PStr p) consumer c = Inr (cache_update X c w p consumer)"
| "update_dep_statuses X w (PList []) consumer c = Inl FatalWrongPathsType"
| "update_dep_statuses X w (PList (p # ps)) consumer c = update_dep_statuses X w p consumer c"
| "update_dep_statuses X w (PDict []) consumer c = Inl FatalWrongPathsType"
| "update_dep_statuses X w (PDict ((k, p) # kvs)) consumer c =
     update_dep_statuses X w p consumer c"
| "update_dep_statuses X w PNone consumer c = Inl FatalWrongPathsType"

text \<open>\<^verbatim>\<open>dep_differ\<close>: every element of a list or a dict is queried.\<close>

fun dep_differ :: "('w, 'c) env \<Rightarrow> 'w \<Rightarrow> pyval \<Rightarrow> string \<Rightarrow> 'c \<Rightarrow> bool" where
  "dep_differ X w (PStr p) consumer c =
     (if \<not> path_exists X w p then True
      else cache_get_status X c w p consumer \<noteq> PStr ''same'')"
| "dep_differ X w (PList ps) consumer c =
     (True \<in> set (map (\<lambda>p. dep_differ X w p consumer c) ps))"
| "dep_differ X w (PDict kvs) consumer c =
     (True \<in> set (map (\<lambda>kv. dep_differ X w (snd kv) consumer c) kvs))"
| "dep_differ X w PNone consumer c = False"

definition dep_will_differ ::
  "('w, 'c) env \<Rightarrow> 'w \<Rightarrow> string \<Rightarrow> pyval \<Rightarrow> string \<Rightarrow> (string \<rightharpoonup> stage) \<Rightarrow> string set \<Rightarrow> 'c \<Rightarrow> bool"
where
  "dep_will_differ X w target paths consumer os rs c =
     (case os target of
        Some provider \<Rightarrow> name provider \<in> rs \<or> dep_differ X w paths consumer c
      | None \<Rightarrow> dep_differ X w paths consumer c)"

text \<open>\<^verbatim>\<open>Flow._dep_will_differ\<close>, with its \<^verbatim>\<open>--nocache\<close> guard.\<close>

definition flow_dep_will_differ ::
  "('w, 'c) env \<Rightarrow> ('w, 'c) flow \<Rightarrow> string \<Rightarrow> pyval \<Rightarrow> string \<Rightarrow> bool" where
  "flow_dep_will_differ X st dep paths consumer =
     (case f4cache st of
        None \<Rightarrow> True
      | Some c \<Rightarrow>
          dep_will_differ X (storage st) dep paths consumer (os_map st) (run_stages st) c)"

subsection \<open>Planning: one input of the stage being resolved\<close>

text \<open>
  The body of the loop over \<^verbatim>\<open>provider.takes\<close> after the recursive call: the verdict
  of lines 322 to 329, the bookkeeping of lines 332 to 338, and the step as a whole.
\<close>

definition will_differ ::
  "('w, 'c) env \<Rightarrow> ('w, 'c) flow \<Rightarrow> stage \<Rightarrow> stage_io \<Rightarrow> pyval \<Rightarrow> error + bool" where
  "will_differ X st provider p_take take_paths =
     (if take_paths = PNone then Inr False
      else
        (case exists_on X st take_paths of
           Inl e \<Rightarrow> Inl e
         | Inr present \<Rightarrow>
             if present
             then Inr (flow_dep_will_differ X st (io_name p_take) take_paths (name provider))
             else Inr True))"

definition cause_rebuild ::
  "('w, 'c) flow \<Rightarrow> stage \<Rightarrow> stage_io \<Rightarrow> error + ('w, 'c) flow" where
  "cause_rebuild st provider p_take =
     (let st1 = (if io_name p_take \<notin> skip_dep_warnings st
                 then (sfprint (CausingRebuild (io_name p_take) (name provider)) st)
                        \<lparr>skip_dep_warnings := insert (io_name p_take) (skip_dep_warnings st)\<rparr>
                 else st);
          st2 = st1\<lparr>run_stages := insert (name provider) (run_stages st1)\<rparr>
      in case deps_rebuilds st2 (io_name p_take) of
           None \<Rightarrow> Inl (KeyError (io_name p_take))
         | Some k \<Rightarrow> Inr (st2\<lparr>deps_rebuilds := (deps_rebuilds st2)(io_name p_take \<mapsto> k + 1)\<rparr>))"

datatype 's verdict = Abandoned 's | Proceed 's

definition process_take ::
  "('w, 'c) env \<Rightarrow> stage \<Rightarrow> stage_io \<Rightarrow> ('w, 'c) flow \<Rightarrow> error + ('w, 'c) flow verdict" where
  "process_take X provider p_take st =
     (let take_paths = dict_get (dep_paths st) (io_name p_take);
          st1 = st\<lparr>value_overrides :=
                     (value_overrides st)
                       (name provider :=
                          (value_overrides st (name provider))
                            (dep_value_str (io_name p_take) \<mapsto> take_paths))\<rparr>
      in if \<not> truthy take_paths \<and> io_spec p_take = Req
         then Inr (Abandoned (sfprint (Unreachable (name provider) (io_name p_take)) st1))
         else
           (case will_differ X st1 provider p_take take_paths of
              Inl e \<Rightarrow> Inl e
            | Inr d \<Rightarrow>
                if d
                then (case cause_rebuild st1 provider p_take of
                        Inl e \<Rightarrow> Inl e
                      | Inr st2 \<Rightarrow> Inr (Proceed st2))
                else Inr (Proceed st1)))"

subsection \<open>Planning: the outputs of the stage being resolved\<close>

text \<open>The loop of lines 345 to 348 over \<^verbatim>\<open>outputs.values()\<close>.\<close>

fun cache_outputs ::
  "('w, 'c) env \<Rightarrow> pyval list \<Rightarrow> ('w, 'c) flow \<Rightarrow> error + ('w, 'c) flow" where
  "cache_outputs X [] st = Inr st"
| "cache_outputs X (output_paths # rest) st =
     (if output_paths \<noteq> PNone
      then
        (case exists_on X st output_paths of
           Inl e \<Rightarrow> Inl e
         | Inr present \<Rightarrow>
             (case f4cache st of
                Some c \<Rightarrow>
                  if present
                  then cache_outputs X rest
                         (st\<lparr>f4cache := Some (cache_deps X output_paths (storage st) c)\<rparr>)
                  else cache_outputs X rest st
              | None \<Rightarrow> cache_outputs X rest st))
      else cache_outputs X rest st)"

text \<open>The loop of lines 353 to 355 over \<^verbatim>\<open>outputs.items()\<close>.\<close>

fun mark_missing_outputs ::
  "('w, 'c) env \<Rightarrow> stage \<Rightarrow> (string \<times> pyval) list \<Rightarrow> ('w, 'c) flow \<Rightarrow> error + ('w, 'c) flow" where
  "mark_missing_outputs X provider [] st = Inr st"
| "mark_missing_outputs X provider ((k, out_paths) # rest) st =
     (if out_paths \<noteq> PNone
      then
        (case exists_on X st out_paths of
           Inl e \<Rightarrow> Inl e
         | Inr present \<Rightarrow>
             if \<not> present
             then mark_missing_outputs X provider rest
                    (st\<lparr>run_stages := insert (name provider) (run_stages st)\<rparr>)
             else mark_missing_outputs X provider rest st)
      else mark_missing_outputs X provider rest st)"

text \<open>
  The loop of lines 359 to 374 over \<^verbatim>\<open>provider.produces\<close>. \<^verbatim>\<open>os_map.pop(name)\<close> has
  no default, so it raises \<^verbatim>\<open>KeyError\<close> when the name has no entry.
\<close>

definition requested :: "('w, 'c) env \<Rightarrow> stage_io \<Rightarrow> bool" where
  "requested X o_spec = (io_name o_spec \<in> fst ` set (dependency_overrides X))"

fun verify_outputs ::
  "('w, 'c) env \<Rightarrow> stage \<Rightarrow> (string \<times> pyval) list \<Rightarrow> stage_io list \<Rightarrow> ('w, 'c) flow
     \<Rightarrow> error + ('w, 'c) flow" where
  "verify_outputs X provider outputs [] st = Inr st"
| "verify_outputs X provider outputs (oo # rest) st =
     (case (if io_name oo \<notin> fst ` set outputs
            then (if io_spec oo = Req \<or> (io_spec oo = Demand \<and> requested X oo)
                  then Inl (FatalNoMapping (name provider) (io_name oo))
                  else (case os_map st (io_name oo) of
                          None \<Rightarrow> Inl (KeyError (io_name oo))
                        | Some owner \<Rightarrow> Inr (st\<lparr>os_map := (os_map st)(io_name oo := None)\<rparr>)))
            else Inr st) of
        Inl e \<Rightarrow> Inl e
      | Inr st1 \<Rightarrow>
          (let o_path = dict_get (map_of outputs) (io_name oo)
           in verify_outputs X provider outputs rest
                (if o_path \<noteq> PNone
                 then st1\<lparr>value_overrides :=
                            (value_overrides st1)
                              (name provider :=
                                 (value_overrides st1 (name provider))
                                   (dep_value_str (io_name oo) \<mapsto> o_path))\<rparr>
                 else st1)))"

text \<open>Lines 340 to 374: everything after the loop over the inputs.\<close>

definition resolve_outputs ::
  "('w, 'c) env \<Rightarrow> stage \<Rightarrow> ('w, 'c) flow \<Rightarrow> error + ('w, 'c) flow" where
  "resolve_outputs X provider st =
     (case module_map X provider (config_mod_runctx X provider st) (storage st) of
        Inl e \<Rightarrow> Inl e
      | Inr outputs \<Rightarrow>
          (case cache_outputs X (map snd outputs) st of
             Inl e \<Rightarrow> Inl e
           | Inr st1 \<Rightarrow>
               (let st2 = st1\<lparr>stages_checked := insert (name provider) (stages_checked st1),
                               dep_paths := dep_paths st1 ++ map_of outputs\<rparr>
                in case mark_missing_outputs X provider outputs st2 of
                     Inl e \<Rightarrow> Inl e
                   | Inr st3 \<Rightarrow> verify_outputs X provider outputs (produces provider) st3)))"

subsection \<open>Planning: the recursion\<close>

text \<open>
  \<^verbatim>\<open>Flow._resolve_dependencies\<close>. The first numeric argument bounds the depth of the
  recursion, as Python's recursion limit does: a dependency cycle ends in
  \<^verbatim>\<open>RecursionError\<close>. \<open>init_dep_status\<close> is the initialisation of the rebuild
  counter in lines 296 and 297.
\<close>

definition init_dep_status :: "string \<Rightarrow> ('w, 'c) flow \<Rightarrow> ('w, 'c) flow" where
  "init_dep_status dep st =
     (if deps_rebuilds st dep = None
      then st\<lparr>deps_rebuilds := (deps_rebuilds st)(dep \<mapsto> 0)\<rparr>
      else st)"

fun resolve_dependencies ::
  "('w, 'c) env \<Rightarrow> nat \<Rightarrow> string \<Rightarrow> ('w, 'c) flow \<Rightarrow> error + ('w, 'c) flow"
  and resolve_takes ::
  "('w, 'c) env \<Rightarrow> nat \<Rightarrow> stage \<Rightarrow> stage_io list \<Rightarrow> ('w, 'c) flow
     \<Rightarrow> error + ('w, 'c) flow verdict"
where
  "resolve_dependencies X 0 dep st = Inl RecursionError"
| "resolve_dependencies X (Suc n) dep st =
     (let st0 = init_dep_status dep st
      in if truthy (dict_get (dep_paths st0) dep) \<and> os_map st0 dep = None then Inr st0
         else
           (case os_map st0 dep of
              None \<Rightarrow> Inr st0
            | Some provider \<Rightarrow>
                if name provider \<in> stages_checked st0 then Inr st0
                else
                  (case resolve_takes X n provider (takes provider) st0 of
                     Inl e \<Rightarrow> Inl e
                   | Inr (Abandoned st1) \<Rightarrow> Inr st1
                   | Inr (Proceed st1) \<Rightarrow> resolve_outputs X provider st1)))"
| "resolve_takes X n provider [] st = Inr (Proceed st)"
| "resolve_takes X n provider (p_take # rest) st =
     (case resolve_dependencies X n (io_name p_take) st of
        Inl e \<Rightarrow> Inl e
      | Inr st1 \<Rightarrow>
          (case process_take X provider p_take st1 of
             Inl e \<Rightarrow> Inl e
           | Inr (Abandoned st2) \<Rightarrow> Inr (Abandoned st2)
           | Inr (Proceed st2) \<Rightarrow> resolve_takes X n provider rest st2))"

text \<open>
  \<^verbatim>\<open>Flow.__init__\<close>. \<open>vo\<close> holds the value overrides the stages start with.
\<close>

definition flow_init ::
  "('w, 'c) env \<Rightarrow> nat \<Rightarrow> string \<Rightarrow> 'c option \<Rightarrow> (string \<Rightarrow> (string \<rightharpoonup> pyval)) \<Rightarrow> 'w
     \<Rightarrow> error + ('w, 'c) flow" where
  "flow_init X fuel target cache vo w =
     (case map_outputs_to_stages (stages X) of
        Inl e \<Rightarrow> Inl e
      | Inr os \<Rightarrow>
          (case filter_existing_deps X w (dependency_overrides X) of
             Inl e \<Rightarrow> Inl e
           | Inr existing \<Rightarrow>
               resolve_dependencies X fuel target
                 \<lparr>os_map = os,
                  dep_paths = map_of existing,
                  run_stages = {},
                  deps_rebuilds = Map.empty,
                  f4cache =
                    (case cache of
                       None \<Rightarrow> None
                     | Some c \<Rightarrow> Some (fold (\<lambda>dep. cache_deps X dep w) (map snd existing) c)),
                  value_overrides = vo,
                  stages_checked = {},
                  skip_dep_warnings = {},
                  storage = w,
                  out = []\<rparr>))"

subsection \<open>Execution\<close>

text \<open>
  An exception raised during execution leaves the mutated \<^verbatim>\<open>Flow\<close> behind (the caller
  still saves the cache), so a failure carries the state it was raised in.

  The loop of lines 453 to 458 over \<^verbatim>\<open>provider.produces\<close>. Both existence checks are
  made on \<^verbatim>\<open>paths\<close>, the paths of the dependency being built, and the exception is
  built from \<^verbatim>\<open>dep\<close>.
\<close>

fun check_products ::
  "('w, 'c) env \<Rightarrow> string \<Rightarrow> pyval \<Rightarrow> stage \<Rightarrow> stage_io list \<Rightarrow> ('w, 'c) flow
     \<Rightarrow> (error \<times> ('w, 'c) flow) + ('w, 'c) flow" where
  "check_products X dep paths provider [] st = Inr st"
| "check_products X dep paths provider (product # rest) st =
     (case (if io_spec product = Req
            then (case exists_on X st paths of
                    Inl e \<Rightarrow> Inl e
                  | Inr present \<Rightarrow>
                      if \<not> present
                      then Inl (DependencyNotProducedException dep (name provider))
                      else Inr ())
            else Inr ()) of
        Inl e \<Rightarrow> Inl (e, st)
      | Inr u \<Rightarrow>
          (case dict_index (dep_paths st) (io_name product) of
             Inl e \<Rightarrow> Inl (e, st)
           | Inr prod_paths \<Rightarrow>
               if prod_paths \<noteq> PNone
               then
                 (case exists_on X st paths of
                    Inl e \<Rightarrow> Inl (e, st)
                  | Inr present \<Rightarrow>
                      (case f4cache st of
                         Some c \<Rightarrow>
                           if present
                           then check_products X dep paths provider rest
                                  (st\<lparr>f4cache := Some (cache_deps X prod_paths (storage st) c)\<rparr>)
                           else check_products X dep paths provider rest st
                       | None \<Rightarrow> check_products X dep paths provider rest st))
               else check_products X dep paths provider rest st))"

text \<open>
  Lines 440 to 460: the skip-rebuild test, the execution of the module, the removal of the
  stage from the run set and the check of the products. \<open>Exec\<close> marks the call of
  \<^verbatim>\<open>module_exec\<close>, whether or not the module then raises.
\<close>

definition finish_build ::
  "('w, 'c) env \<Rightarrow> string \<Rightarrow> pyval \<Rightarrow> stage \<Rightarrow> bool \<Rightarrow> ('w, 'c) flow
     \<Rightarrow> (error \<times> ('w, 'c) flow) + (bool \<times> ('w, 'c) flow)" where
  "finish_build X dep paths provider any_dep_differ st =
     (case (if \<not> any_dep_differ then exists_on X st paths else Inr False) of
        Inl e \<Rightarrow> Inl (e, st)
      | Inr skip \<Rightarrow>
          if skip then Inr (True, sfprint (SkipRebuild dep) st)
          else
            (let st1 = sfprint (Exec (name provider)) st
             in case module_exec X provider (config_mod_runctx X provider st) (storage st) of
                  Inl e \<Rightarrow> Inl (e, st1)
                | Inr w \<Rightarrow>
                    (case check_products X dep paths provider (produces provider)
                            (st1\<lparr>storage := w,
                                 run_stages := run_stages st1 - {name provider}\<rparr>) of
                       Inl err \<Rightarrow> Inl err
                     | Inr st2 \<Rightarrow> Inr (True, st2))))"

text \<open>
  \<^verbatim>\<open>Flow._build_dep\<close> and its loop over \<^verbatim>\<open>provider.takes\<close>, which carries
  \<^verbatim>\<open>any_dep_differ\<close>. The depth of the recursion is bounded as in planning.
\<close>

fun build_dep ::
  "('w, 'c) env \<Rightarrow> nat \<Rightarrow> string \<Rightarrow> ('w, 'c) flow
     \<Rightarrow> (error \<times> ('w, 'c) flow) + (bool \<times> ('w, 'c) flow)"
  and build_takes ::
  "('w, 'c) env \<Rightarrow> nat \<Rightarrow> stage \<Rightarrow> stage_io list \<Rightarrow> bool \<Rightarrow> ('w, 'c) flow
     \<Rightarrow> (error \<times> ('w, 'c) flow) + (bool \<times> ('w, 'c) flow)"
where
  "build_dep X 0 dep st = Inl (RecursionError, st)"
| "build_dep X (Suc n) dep st =
     (let paths = dict_get (dep_paths st) dep;
          run = (case os_map st dep of
                   Some provider \<Rightarrow> name provider \<in> run_stages st
                 | None \<Rightarrow> False)
      in if \<not> truthy paths then Inr (False, sfprint (Unresolved dep) st)
         else
           (case exists_on X st paths of
              Inl e \<Rightarrow> Inl (e, st)
            | Inr present \<Rightarrow>
                if present \<and> \<not> run then Inr (True, st)
                else
                  (case os_map st dep of
                     None \<Rightarrow> Inl (AssertionError, st)
                   | Some provider \<Rightarrow>
                       (case build_takes X n provider (takes provider) (f4cache st = None) st of
                          Inl err \<Rightarrow> Inl err
                        | Inr (any_dep_differ, st1) \<Rightarrow>
                            finish_build X dep paths provider any_dep_differ st1))))"
| "build_takes X n provider [] any_dep_differ st = Inr (any_dep_differ, st)"
| "build_takes X n provider (p_dep # rest) any_dep_differ st =
     (case build_dep X n (io_name p_dep) st of
        Inl err \<Rightarrow> Inl err
      | Inr (built, st1) \<Rightarrow>
          if \<not> built
          then (if io_spec p_dep = Req then Inl (AssertionError, st1)
                else build_takes X n provider rest any_dep_differ st1)
          else
            (case f4cache st1 of
               None \<Rightarrow> build_takes X n provider rest any_dep_differ st1
             | Some c \<Rightarrow>
                 (case dict_index (dep_paths st1) (io_name p_dep) of
                    Inl e \<Rightarrow> Inl (e, st1)
                  | Inr p_paths \<Rightarrow>
                      (case update_dep_statuses X (storage st1) p_paths (name provider) c of
                         Inl e \<Rightarrow> Inl (e, st1)
                       | Inr (differs, c') \<Rightarrow>
                           build_takes X n provider rest (any_dep_differ \<or> differs)
                             (st1\<lparr>f4cache := Some c'\<rparr>)))))"

text \<open>\<^verbatim>\<open>Flow.execute\<close>: the result of \<^verbatim>\<open>_build_dep\<close> is dropped.\<close>

definition execute ::
  "('w, 'c) env \<Rightarrow> nat \<Rightarrow> string \<Rightarrow> ('w, 'c) flow \<Rightarrow> (error \<times> ('w, 'c) flow) + ('w, 'c) flow" where
  "execute X fuel target st =
     (case build_dep X fuel target st of
        Inl err \<Rightarrow> Inl err
      | Inr (built, st1) \<Rightarrow>
          (case dict_index (dep_paths st1) target of
             Inl e \<Rightarrow> Inl (e, st1)
           | Inr target_paths \<Rightarrow>
               (case f4cache st1 of
                  None \<Rightarrow> Inr (sfprint (TargetReport target target_paths) st1)
                | Some c \<Rightarrow>
                    (let c1 = cache_deps X target_paths (storage st1) c
                     in case update_dep_statuses X (storage st1) target_paths ''__target'' c1 of
                          Inl e \<Rightarrow> Inl (e, st1\<lparr>f4cache := Some c1\<rparr>)
                        | Inr (differs, c2) \<Rightarrow>
                            Inr (sfprint (TargetReport target target_paths)
                                   (st1\<lparr>f4cache := Some c2\<rparr>))))))"

text \<open>The stages whose module was executed, in order.\<close>

definition executed :: "('w, 'c) flow \<Rightarrow> string list" where
  "executed st = concat (map (\<lambda>ev. case ev of Exec s \<Rightarrow> [s] | _ \<Rightarrow> []) (out st))"

subsection \<open>Auxiliary notions for the ownership map\<close>

text \<open>
  \<open>owned_by os D\<close>: the map \<open>os\<close> holds exactly the outputs declared by the stages in
  \<open>D\<close>, each under its declaring stage. \<open>conflict D\<close>: two distinct stages of \<open>D\<close>
  declare the same output name.
\<close>

definition owned_by :: "(string \<rightharpoonup> stage) \<Rightarrow> stage set \<Rightarrow> bool" where
  "owned_by os D = ((\<forall>n s. os n = Some s \<longrightarrow> s \<in> D \<and> n \<in> out_names s) \<and>
                    (\<forall>s \<in> D. \<forall>n \<in> out_names s. os n = Some s))"

definition conflict :: "stage set \<Rightarrow> bool" where
  "conflict D = (\<exists>s1 \<in> D. \<exists>s2 \<in> D. s1 \<noteq> s2 \<and> out_names s1 \<inter> out_names s2 \<noteq> {})"

subsection \<open>A staleness oracle and example flows\<close>

text \<open>
  Modelled from the spec: the Staleness Oracle, class \<^verbatim>\<open>F4Cache\<close> of \<^verbatim>\<open>f4pga/cache.py\<close>,
  which is not under \<^verbatim>\<open>src/\<close>. The storage maps a path to the signature of its content.
  The oracle keeps the signature last recorded for a (path, consumer) pair;
  \<open>status\<close> answers \<^verbatim>\<open>same\<close> when the path exists and its signature is the recorded one
  and differs otherwise (unknown pair or absent path); \<open>record\<close> gives that verdict and
  stores the current signature; registering a path records nothing for any consumer.
\<close>

type_synonym files = "string \<rightharpoonup> string"

type_synonym sigcache = "string \<times> string \<rightharpoonup> string"

definition oracle_get_status :: "sigcache \<Rightarrow> files \<Rightarrow> string \<Rightarrow> string \<Rightarrow> pyval" where
  "oracle_get_status c w p consumer =
     (case w p of
        None \<Rightarrow> PStr ''changed''
      | Some sig \<Rightarrow> if c (p, consumer) = Some sig then PStr ''same'' else PStr ''changed'')"

definition oracle_update :: "sigcache \<Rightarrow> files \<Rightarrow> string \<Rightarrow> string \<Rightarrow> bool \<times> sigcache" where
  "oracle_update c w p consumer =
     (oracle_get_status c w p consumer \<noteq> PStr ''same'', c((p, consumer) := w p))"

definition oracle_cache_deps :: "pyval \<Rightarrow> files \<Rightarrow> sigcache \<Rightarrow> sigcache" where
  "oracle_cache_deps paths w c = c"

text \<open>
  An environment over that storage and oracle: \<open>predict\<close> gives the outputs a stage's
  module predicts, \<open>run\<close> what executing it does to the storage.
\<close>

definition example_env ::
  "stage list \<Rightarrow> (string \<times> pyval) list \<Rightarrow> (stage \<Rightarrow> (string \<times> pyval) list)
     \<Rightarrow> (stage \<Rightarrow> files \<Rightarrow> files) \<Rightarrow> (files, sigcache) env" where
  "example_env stgs ovds predict run =
     \<lparr>path_exists = (\<lambda>w p. w p \<noteq> None),
      cache_update = oracle_update,
      cache_get_status = oracle_get_status,
      cache_deps = oracle_cache_deps,
      module_map = (\<lambda>s ctx w. Inr (predict s)),
      module_exec = (\<lambda>s ctx w. Inr (run s w)),
      r_env_values = (\<lambda>n vo. vo),
      stages = stgs,
      dependency_overrides = ovds\<rparr>"

text \<open>
  The stages of the examples: \<open>stage_a\<close> produces \<open>x\<close> from nothing, \<open>stage_b\<close> requires
  \<open>x\<close> and produces \<open>bitstream\<close>, \<open>stage_x2\<close> is a second producer of \<open>x\<close>.
\<close>

definition stage_a :: stage where
  "stage_a = \<lparr>name = ''A'', modulestr = ''mod_a'', takes = [],
               produces = [\<lparr>io_name = ''x'', io_spec = Req\<rparr>]\<rparr>"

definition stage_b :: stage where
  "stage_b = \<lparr>name = ''B'', modulestr = ''mod_b'',
               takes = [\<lparr>io_name = ''x'', io_spec = Req\<rparr>],
               produces = [\<lparr>io_name = ''bitstream'', io_spec = Req\<rparr>]\<rparr>"

definition stage_x2 :: stage where
  "stage_x2 = \<lparr>name = ''X2'', modulestr = ''mod_a'', takes = [],
                produces = [\<lparr>io_name = ''y'', io_spec = Maybe\<rparr>,
                            \<lparr>io_name = ''x'', io_spec = Req\<rparr>]\<rparr>"

text \<open>A flow with nothing resolved yet, over a given storage and cache.\<close>

definition blank_flow :: "'w \<Rightarrow> 'c option \<Rightarrow> ('w, 'c) flow" where
  "blank_flow w cache =
     \<lparr>os_map = Map.empty, dep_paths = Map.empty, run_stages = {}, deps_rebuilds = Map.empty,
      f4cache = cache, value_overrides = (\<lambda>s. Map.empty), stages_checked = {},
      skip_dep_warnings = {}, storage = w, out = []\<rparr>"

text \<open>The state a step of the input loop leaves behind.\<close>

fun verdict_state :: "'s verdict \<Rightarrow> 's" where
  "verdict_state (Abandoned s) = s"
| "verdict_state (Proceed s) = s"

text \<open>
  The flow of \<open>stage_a\<close> and \<open>stage_b\<close>: every declared output is predicted at
  \<open>name.out\<close>, and executing a stage writes each of its outputs, with the stage's
  name as content. \<open>planned_ab\<close> is that flow after \<open>x\<close> has been resolved.
\<close>

definition predict_ab :: "stage \<Rightarrow> (string \<times> pyval) list" where
  "predict_ab s = map (\<lambda>oo. (io_name oo, PStr (io_name oo @ ''.out''))) (produces s)"

definition run_ab :: "stage \<Rightarrow> files \<Rightarrow> files" where
  "run_ab s w = fold (\<lambda>oo w'. w'(io_name oo @ ''.out'' \<mapsto> name s)) (produces s) w"

definition env_ab :: "(files, sigcache) env" where
  "env_ab = example_env [stage_a, stage_b] [] predict_ab run_ab"

definition planned_ab :: "files \<Rightarrow> sigcache option \<Rightarrow> (files, sigcache) flow" where
  "planned_ab w cache =
     (blank_flow w cache)
       \<lparr>os_map := [''x'' \<mapsto> stage_a, ''bitstream'' \<mapsto> stage_b],
        dep_paths := [''x'' \<mapsto> PStr ''x.out''],
        deps_rebuilds := [''bitstream'' \<mapsto> 0, ''x'' \<mapsto> 0]\<rparr>"

text \<open>The state an execution step ends in, whether it returned or raised.\<close>

fun outcome_state :: "(error \<times> 's) + (bool \<times> 's) \<Rightarrow> 's" where
  "outcome_state (Inl (e, s)) = s"
| "outcome_state (Inr (b, s)) = s"

text \<open>
  A stage whose module predicts only one of its two declared outputs: \<open>stage_c\<close>
  declares \<open>a\<close> as Required and \<open>b\<close> as OnDemand, and \<open>predict_c\<close> gives a path to
  \<open>a\<close> alone.
\<close>

definition stage_c :: stage where
  "stage_c = \<lparr>name = ''C'', modulestr = ''mod_c'', takes = [],
               produces = [\<lparr>io_name = ''a'', io_spec = Req\<rparr>,
                           \<lparr>io_name = ''b'', io_spec = Demand\<rparr>]\<rparr>"

definition predict_c :: "stage \<Rightarrow> (string \<times> pyval) list" where
  "predict_c s = [(''a'', PStr ''a.out'')]"

definition env_c :: "(string \<times> pyval) list \<Rightarrow> (files, sigcache) env" where
  "env_c ovds = example_env [stage_c] ovds predict_c run_ab"

text \<open>What execution may change: the output, the storage, the run set and the cache.\<close>

definition exec_frame :: "('w, 'c) flow \<Rightarrow> ('w, 'c) flow \<Rightarrow> bool" where
  "exec_frame a b \<longleftrightarrow>
     os_map b = os_map a \<and> dep_paths b = dep_paths a \<and> deps_rebuilds b = deps_rebuilds a \<and>
     value_overrides b = value_overrides a \<and> stages_checked b = stages_checked a \<and>
     skip_dep_warnings b = skip_dep_warnings a \<and> run_stages b \<subseteq> run_stages a \<and>
     (f4cache a = None \<longrightarrow> f4cache b = None) \<and> (\<exists>evs. out b = out a @ evs)"

text \<open>
  The flow of \<open>stage_a\<close> and \<open>stage_b\<close> when planning has resolved both outputs and put
  \<open>stage_b\<close> in the run set.
\<close>

definition stale_b :: "files \<Rightarrow> sigcache option \<Rightarrow> (files, sigcache) flow" where
  "stale_b w cache =
     (planned_ab w cache)
       \<lparr>dep_paths := [''x'' \<mapsto> PStr ''x.out'', ''bitstream'' \<mapsto> PStr ''bitstream.out''],
        run_stages := {''B''}\<rparr>"

text \<open>
  A stage with two Required outputs whose module writes only one of them: \<open>stage_d\<close>
  declares \<open>a\<close> and \<open>b\<close>, both are predicted, and \<open>run_only_b\<close> writes \<open>b.out\<close> alone.
\<close>

definition stage_d :: stage where
  "stage_d = \<lparr>name = ''D'', modulestr = ''mod_d'', takes = [],
               produces = [\<lparr>io_name = ''a'', io_spec = Req\<rparr>,
                           \<lparr>io_name = ''b'', io_spec = Req\<rparr>]\<rparr>"

definition run_only_b :: "stage \<Rightarrow> files \<Rightarrow> files" where
  "run_only_b s w = w(''b.out'' \<mapsto> name s)"

definition env_d :: "(files, sigcache) env" where
  "env_d = example_env [stage_d] [] predict_ab run_only_b"

text \<open>The flow of \<open>stage_d\<close> for the target \<open>b\<close> as planning leaves it on an empty storage.\<close>

definition planned_d :: "(files, sigcache) flow" where
  "planned_d =
     \<lparr>os_map = [''a'' \<mapsto> stage_d, ''b'' \<mapsto> stage_d],
      dep_paths = [''b'' \<mapsto> PStr ''b.out'', ''a'' \<mapsto> PStr ''a.out''],
      run_stages = {''D''},
      deps_rebuilds = [''b'' \<mapsto> 0],
      f4cache = None,
      value_overrides = (\<lambda>s. Map.empty)(''D'' := [dep_value_str ''a'' \<mapsto> PStr ''a.out'',
                                                   dep_value_str ''b'' \<mapsto> PStr ''b.out'']),
      stages_checked = {''D''},
      skip_dep_warnings = {},
      storage = Map.empty,
      out = []\<rparr>"

text \<open>
  A stage with an unmet Required input after an input that causes a rebuild: \<open>stage_s\<close>
  takes \<open>a\<close> and then \<open>b\<close> and produces \<open>o\<close>; the configuration gives explicit paths to
  \<open>a\<close> and to \<open>o\<close>, and nothing provides \<open>b\<close>. \<open>stage_s_rev\<close> takes the same inputs
  in the other order.
\<close>

definition stage_s :: stage where
  "stage_s = \<lparr>name = ''S'', modulestr = ''mod_s'',
               takes = [\<lparr>io_name = ''a'', io_spec = Req\<rparr>, \<lparr>io_name = ''b'', io_spec = Req\<rparr>],
               produces = [\<lparr>io_name = ''o'', io_spec = Req\<rparr>]\<rparr>"

definition stage_s_rev :: stage where
  "stage_s_rev = \<lparr>name = ''S'', modulestr = ''mod_s'',
               takes = [\<lparr>io_name = ''b'', io_spec = Req\<rparr>, \<lparr>io_name = ''a'', io_spec = Req\<rparr>],
               produces = [\<lparr>io_name = ''o'', io_spec = Req\<rparr>]\<rparr>"

definition env_s :: "stage \<Rightarrow> (files, sigcache) env" where
  "env_s s = example_env [s] [(''a'', PStr ''a.src''), (''o'', PStr ''o.given'')] predict_ab run_ab"

definition files_s :: files where
  "files_s = [''a.src'' \<mapsto> ''v1'', ''o.given'' \<mapsto> ''v2'']"

definition planned_s :: "(files, sigcache) flow" where
  "planned_s =
     \<lparr>os_map = [''o'' \<mapsto> stage_s],
      dep_paths = [''o'' \<mapsto> PStr ''o.given'', ''a'' \<mapsto> PStr ''a.src''],
      run_stages = {''S''},
      deps_rebuilds = [''o'' \<mapsto> 0, ''a'' \<mapsto> 1, ''b'' \<mapsto> 0],
      f4cache = Some Map.empty,
      value_overrides = (\<lambda>s. Map.empty)(''S'' := [dep_value_str ''a'' \<mapsto> PStr ''a.src'',
                                                   dep_value_str ''b'' \<mapsto> PNone]),
      stages_checked = {},
      skip_dep_warnings = {''a''},
      storage = files_s,
      out = [CausingRebuild ''a'' ''S'', Unreachable ''S'' ''b'']\<rparr>"

definition planned_s_rev :: "(files, sigcache) flow" where
  "planned_s_rev =
     \<lparr>os_map = [''o'' \<mapsto> stage_s_rev],
      dep_paths = [''o'' \<mapsto> PStr ''o.given'', ''a'' \<mapsto> PStr ''a.src''],
      run_stages = {},
      deps_rebuilds = [''o'' \<mapsto> 0, ''b'' \<mapsto> 0],
      f4cache = Some Map.empty,
      value_overrides = (\<lambda>s. Map.empty)(''S'' := [dep_value_str ''b'' \<mapsto> PNone]),
      stages_checked = {},
      skip_dep_warnings = {},
      storage = files_s,
      out = [Unreachable ''S'' ''b'']\<rparr>"


definition files_ab :: files where
  "files_ab = [''x.out'' \<mapsto> ''A'', ''bitstream.out'' \<mapsto> ''B'']"


subsection \<open>A flow with nothing left to do\<close>



subsection \<open>The flow at the start of planning\<close>

text \<open>
  The object \<^verbatim>\<open>Flow.__init__\<close> has built when it calls \<^verbatim>\<open>_resolve_dependencies\<close>
  (lines 268 to 279): \<open>flow_init\<close> is the planner run from this state.
\<close>

definition flow_start ::
  "('w, 'c) env \<Rightarrow> (string \<rightharpoonup> stage) \<Rightarrow> (string \<times> pyval) list \<Rightarrow> 'c option
     \<Rightarrow> (string \<Rightarrow> (string \<rightharpoonup> pyval)) \<Rightarrow> 'w \<Rightarrow> ('w, 'c) flow" where
  "flow_start X os existing cache vo w =
     \<lparr>os_map = os,
      dep_paths = map_of existing,
      run_stages = {},
      deps_rebuilds = Map.empty,
      f4cache =
        (case cache of
           None \<Rightarrow> None
         | Some c \<Rightarrow> Some (fold (\<lambda>dep. cache_deps X dep w) (map snd existing) c)),
      value_overrides = vo,
      stages_checked = {},
      skip_dep_warnings = {},
      storage = w,
      out = []\<rparr>"

text \<open>
  What planning may change between two of its states: the run set and the rebuild
  counters only grow, a flow without cache stays without cache, and neither the storage
  nor the list of executed modules changes.
\<close>

definition plan_grows :: "('w, 'c) flow \<Rightarrow> ('w, 'c) flow \<Rightarrow> bool" where
  "plan_grows a b \<longleftrightarrow>
     run_stages a \<subseteq> run_stages b \<and>
     (\<forall>d k. deps_rebuilds a d = Some k \<longrightarrow> (\<exists>k'. deps_rebuilds b d = Some k' \<and> k \<le> k')) \<and>
     (f4cache a = None \<longrightarrow> f4cache b = None) \<and>
     storage b = storage a \<and> executed b = executed a"

subsection \<open>Further example flows\<close>

text \<open>
  The ownership maps that construction builds for the flow of \<open>stage_a\<close> and
  \<open>stage_b\<close> and for the flow of \<open>stage_c\<close>.
\<close>

definition os_ab :: "string \<rightharpoonup> stage" where
  "os_ab = [''x'' \<mapsto> stage_a, ''bitstream'' \<mapsto> stage_b]"

definition os_c :: "string \<rightharpoonup> stage" where
  "os_c = [''a'' \<mapsto> stage_c, ''b'' \<mapsto> stage_c]"

text \<open>
  Two predictions that planning cannot validate. \<open>predict_named\<close> gives the output
  \<open>b\<close> of \<open>stage_d\<close> a named mapping as its path and leaves the Required output
  \<open>a\<close> out. \<open>stage_m\<close> declares the Maybe output \<open>y\<close> twice, and \<open>predict_z\<close>
  predicts only its output \<open>z\<close>.
\<close>

definition predict_named :: "stage \<Rightarrow> (string \<times> pyval) list" where
  "predict_named s = [(''b'', PDict [(''bit'', PStr ''b.out'')])]"

definition env_named :: "(files, sigcache) env" where
  "env_named = example_env [stage_d] [] predict_named run_ab"

definition stage_m :: stage where
  "stage_m = \<lparr>name = ''M'', modulestr = ''mod_m'', takes = [],
               produces = [\<lparr>io_name = ''z'', io_spec = Req\<rparr>,
                           \<lparr>io_name = ''y'', io_spec = Maybe\<rparr>,
                           \<lparr>io_name = ''y'', io_spec = Maybe\<rparr>]\<rparr>"

definition predict_z :: "stage \<Rightarrow> (string \<times> pyval) list" where
  "predict_z s = [(''z'', PStr ''z.out'')]"

definition env_m :: "(files, sigcache) env" where
  "env_m = example_env [stage_m] [] predict_z run_ab"























section \<open>Properties\<close>

subsection \<open>The ownership map has one producer per output\<close>

lemma register_outputs_conflict:
  "\<exists>oo \<in> set outs. \<exists>owner. os (io_name oo) = Some owner \<and> owner \<noteq> stg \<Longrightarrow>
   \<exists>oo \<in> set outs. \<exists>owner. os (io_name oo) = Some owner \<and> owner \<noteq> stg \<and>
      register_outputs stg outs os = Inl (DuplicateProvider (io_name oo) (name owner) (name stg))"
proof (induction outs arbitrary: os)
  case Nil
  then show ?case by simp
next
  case (Cons a outs)
  show ?case
  proof (cases "os (io_name a)")
    case None
    with Cons.prems have ex: "\<exists>oo \<in> set outs. \<exists>owner. os (io_name oo) = Some owner \<and> owner \<noteq> stg"
      by auto
    then have "\<exists>oo \<in> set outs. \<exists>owner. (os(io_name a \<mapsto> stg)) (io_name oo) = Some owner \<and> owner \<noteq> stg"
      using None by (metis fun_upd_apply option.distinct(1))
    from Cons.IH[OF this] obtain oo owner where
      h: "oo \<in> set outs" "(os(io_name a \<mapsto> stg)) (io_name oo) = Some owner" "owner \<noteq> stg"
         "register_outputs stg outs (os(io_name a \<mapsto> stg)) = Inl (DuplicateProvider (io_name oo) (name owner) (name stg))"
      by blast
    then have "os (io_name oo) = Some owner" by (auto split: if_splits)
    with h None show ?thesis by auto
  next
    case (Some owner)
    show ?thesis
    proof (cases "owner = stg")
      case True
      with Cons.prems Some have "\<exists>oo \<in> set outs. \<exists>owner. os (io_name oo) = Some owner \<and> owner \<noteq> stg"
        by auto
      from Cons.IH[OF this] show ?thesis using Some True by auto
    next
      case False
      with Some show ?thesis by auto
    qed
  qed
qed

lemma register_outputs_ok:
  "\<forall>oo \<in> set outs. \<forall>owner. os (io_name oo) = Some owner \<longrightarrow> owner = stg \<Longrightarrow>
   register_outputs stg outs os =
     Inr (\<lambda>n. if n \<in> io_name ` set outs then Some stg else os n)"
proof (induction outs arbitrary: os)
  case Nil
  then show ?case by simp
next
  case (Cons a outs)
  show ?case
  proof (cases "os (io_name a)")
    case None
    have "\<forall>oo \<in> set outs. \<forall>owner. (os(io_name a \<mapsto> stg)) (io_name oo) = Some owner \<longrightarrow> owner = stg"
      using Cons.prems by auto
    from Cons.IH[OF this]
    have "register_outputs stg outs (os(io_name a \<mapsto> stg)) =
            Inr (\<lambda>n. if n \<in> io_name ` set outs then Some stg else (os(io_name a \<mapsto> stg)) n)" .
    moreover have "(\<lambda>n. if n \<in> io_name ` set outs then Some stg else (os(io_name a \<mapsto> stg)) n) =
                   (\<lambda>n. if n \<in> io_name ` set (a # outs) then Some stg else os n)"
      by (auto simp: fun_eq_iff)
    ultimately show ?thesis using None by simp
  next
    case (Some owner)
    with Cons.prems have eq: "owner = stg" by auto
    have "\<forall>oo \<in> set outs. \<forall>owner. os (io_name oo) = Some owner \<longrightarrow> owner = stg"
      using Cons.prems by auto
    from Cons.IH[OF this]
    have "register_outputs stg outs os =
            Inr (\<lambda>n. if n \<in> io_name ` set outs then Some stg else os n)" .
    moreover have "(\<lambda>n. if n \<in> io_name ` set outs then Some stg else os n) =
                   (\<lambda>n. if n \<in> io_name ` set (a # outs) then Some stg else os n)"
      using Some eq by (auto simp: fun_eq_iff)
    ultimately show ?thesis using Some eq by simp
  qed
qed

lemma owned_byD1: "owned_by os D \<Longrightarrow> os n = Some s \<Longrightarrow> s \<in> D \<and> n \<in> out_names s"
  unfolding owned_by_def by blast

lemma owned_byD2: "owned_by os D \<Longrightarrow> s \<in> D \<Longrightarrow> n \<in> out_names s \<Longrightarrow> os n = Some s"
  unfolding owned_by_def by blast

lemma owned_byI:
  "(\<And>n s. os n = Some s \<Longrightarrow> s \<in> D \<and> n \<in> out_names s) \<Longrightarrow>
   (\<And>s n. s \<in> D \<Longrightarrow> n \<in> out_names s \<Longrightarrow> os n = Some s) \<Longrightarrow> owned_by os D"
  unfolding owned_by_def by blast

lemma owned_by_register:
  assumes ob: "owned_by os D"
    and ok: "\<forall>oo \<in> set (produces stg). \<forall>owner. os (io_name oo) = Some owner \<longrightarrow> owner = stg"
  shows "owned_by (\<lambda>n. if n \<in> io_name ` set (produces stg) then Some stg else os n) (insert stg D)"
proof (rule owned_byI)
  fix n s
  assume a: "(if n \<in> io_name ` set (produces stg) then Some stg else os n) = Some s"
  show "s \<in> insert stg D \<and> n \<in> out_names s"
  proof (cases "n \<in> io_name ` set (produces stg)")
    case True
    with a have "s = stg" by simp
    with True show ?thesis by (simp add: out_names_def)
  next
    case False
    with a have "os n = Some s" by simp
    from owned_byD1[OF ob this] show ?thesis by simp
  qed
next
  fix s n
  assume s: "s \<in> insert stg D" and n: "n \<in> out_names s"
  show "(if n \<in> io_name ` set (produces stg) then Some stg else os n) = Some s"
  proof (cases "n \<in> io_name ` set (produces stg)")
    case True
    then obtain oo where oo: "oo \<in> set (produces stg)" "n = io_name oo" by blast
    show ?thesis
    proof (cases "s = stg")
      case True
      then show ?thesis using \<open>n \<in> io_name ` set (produces stg)\<close> by simp
    next
      case False
      with s have "s \<in> D" by simp
      from owned_byD2[OF ob this n] have "os n = Some s" .
      with ok oo have "s = stg" by blast
      with False show ?thesis by simp
    qed
  next
    case False
    with n have "s \<noteq> stg" unfolding out_names_def by blast
    with s have "s \<in> D" by simp
    from owned_byD2[OF ob this n] have "os n = Some s" .
    with False show ?thesis by simp
  qed
qed

lemma register_stages_sound:
  "owned_by os D \<Longrightarrow>
   (conflict (D \<union> set stgs) \<longrightarrow>
      (\<exists>n a b. a \<in> D \<union> set stgs \<and> b \<in> D \<union> set stgs \<and> a \<noteq> b \<and> n \<in> out_names a \<and> n \<in> out_names b \<and>
         register_stages stgs os = Inl (DuplicateProvider n (name a) (name b)))) \<and>
   (\<not> conflict (D \<union> set stgs) \<longrightarrow>
      (\<exists>os'. register_stages stgs os = Inr os' \<and> owned_by os' (D \<union> set stgs)))"
proof (induction stgs arbitrary: os D)
  case Nil
  have "\<not> conflict D"
    unfolding conflict_def
  proof (clarify)
    fix s1 s2 n
    assume "s1 \<in> D" "s2 \<in> D" "s1 \<noteq> s2" "out_names s1 \<inter> out_names s2 \<noteq> {}"
    then obtain n where "n \<in> out_names s1" "n \<in> out_names s2" by blast
    with Nil \<open>s1 \<in> D\<close> \<open>s2 \<in> D\<close> have "os n = Some s1" "os n = Some s2"
      by (blast dest: owned_byD2)+
    with \<open>s1 \<noteq> s2\<close> show False by simp
  qed
  with Nil show ?case by simp
next
  case (Cons stg stgs)
  show ?case
  proof (cases "\<exists>oo \<in> set (produces stg). \<exists>owner. os (io_name oo) = Some owner \<and> owner \<noteq> stg")
    case True
    from register_outputs_conflict[OF True] obtain oo owner where
      h: "oo \<in> set (produces stg)" "os (io_name oo) = Some owner" "owner \<noteq> stg"
         "register_outputs stg (produces stg) os = Inl (DuplicateProvider (io_name oo) (name owner) (name stg))"
      by blast
    from owned_byD1[OF Cons.prems h(2)] have o: "owner \<in> D" "io_name oo \<in> out_names owner"
      by simp_all
    have n: "io_name oo \<in> out_names stg" using h(1) by (simp add: out_names_def)
    have r: "register_stages (stg # stgs) os = Inl (DuplicateProvider (io_name oo) (name owner) (name stg))"
      using h(4) by simp
    have "\<exists>n a b. a \<in> D \<union> set (stg # stgs) \<and> b \<in> D \<union> set (stg # stgs) \<and> a \<noteq> b \<and>
            n \<in> out_names a \<and> n \<in> out_names b \<and>
            register_stages (stg # stgs) os = Inl (DuplicateProvider n (name a) (name b))"
      apply (rule exI[of _ "io_name oo"])
      apply (rule exI[of _ owner])
      apply (rule exI[of _ stg])
      using o n h(3) r by simp
    moreover have "conflict (D \<union> set (stg # stgs))"
      unfolding conflict_def
      apply (rule bexI[of _ owner])
       apply (rule bexI[of _ stg])
      using o n h(3) by auto
    ultimately show ?thesis by blast
  next
    case False
    then have ok: "\<forall>oo \<in> set (produces stg). \<forall>owner. os (io_name oo) = Some owner \<longrightarrow> owner = stg"
      by blast
    let ?os1 = "\<lambda>n. if n \<in> io_name ` set (produces stg) then Some stg else os n"
    have r: "register_outputs stg (produces stg) os = Inr ?os1"
      by (rule register_outputs_ok[OF ok])
    have ob: "owned_by ?os1 (insert stg D)"
      by (rule owned_by_register[OF Cons.prems ok])
    have eq: "insert stg D \<union> set stgs = D \<union> set (stg # stgs)" by auto
    have rs: "register_stages (stg # stgs) os = register_stages stgs ?os1"
      using r by simp
    from Cons.IH[OF ob] show ?thesis unfolding eq rs .
  qed
qed

lemma owned_by_dom:
  assumes "owned_by os (set stgs)"
  shows "(\<forall>s \<in> set stgs. \<forall>n \<in> out_names s. os n = Some s) \<and> dom os = \<Union> (out_names ` set stgs)"
proof (intro conjI)
  show "\<forall>s \<in> set stgs. \<forall>n \<in> out_names s. os n = Some s"
    using assms unfolding owned_by_def by blast
  show "dom os = \<Union> (out_names ` set stgs)"
  proof (rule set_eqI)
    fix n
    show "n \<in> dom os \<longleftrightarrow> n \<in> \<Union> (out_names ` set stgs)"
    proof
      assume "n \<in> dom os"
      then obtain s where "os n = Some s" by blast
      from owned_byD1[OF assms this] have "s \<in> set stgs" "n \<in> out_names s" by simp_all
      then show "n \<in> \<Union> (out_names ` set stgs)" by blast
    next
      assume "n \<in> \<Union> (out_names ` set stgs)"
      then obtain s where "s \<in> set stgs" "n \<in> out_names s" by blast
      with assms have "os n = Some s" by (blast dest: owned_byD2)
      then show "n \<in> dom os" by blast
    qed
  qed
qed

lemma map_outputs_to_stages_sound:
  "(shared_output stgs \<longrightarrow>
      (\<exists>n a b. a \<in> set stgs \<and> b \<in> set stgs \<and> a \<noteq> b \<and> n \<in> out_names a \<and> n \<in> out_names b \<and>
         map_outputs_to_stages stgs = Inl (DuplicateProvider n (name a) (name b)))) \<and>
   (\<not> shared_output stgs \<longrightarrow>
      (\<exists>os. map_outputs_to_stages stgs = Inr os \<and>
         (\<forall>s \<in> set stgs. \<forall>n \<in> out_names s. os n = Some s) \<and>
         dom os = \<Union> (out_names ` set stgs)))"
proof -
  have ob: "owned_by Map.empty {}" by (simp add: owned_by_def)
  have c: "conflict ({} \<union> set stgs) = shared_output stgs"
    by (simp add: shared_output_def conflict_def)
  have e: "{} \<union> set stgs = set stgs" by simp
  note r = register_stages_sound[OF ob, of stgs, unfolded c, unfolded e, folded map_outputs_to_stages_def]
  show ?thesis
  proof (intro conjI impI)
    assume "shared_output stgs"
    with r show "\<exists>n a b. a \<in> set stgs \<and> b \<in> set stgs \<and> a \<noteq> b \<and> n \<in> out_names a \<and> n \<in> out_names b \<and>
         map_outputs_to_stages stgs = Inl (DuplicateProvider n (name a) (name b))" by simp
  next
    assume "\<not> shared_output stgs"
    with r obtain os where o: "map_outputs_to_stages stgs = Inr os" "owned_by os (set stgs)" by auto
    from owned_by_dom[OF o(2)] o(1)
    show "\<exists>os. map_outputs_to_stages stgs = Inr os \<and>
         (\<forall>s \<in> set stgs. \<forall>n \<in> out_names s. os n = Some s) \<and>
         dom os = \<Union> (out_names ` set stgs)" by simp
  qed
qed

lemma flow_init_ownership_error:
  "map_outputs_to_stages (stages X) = Inl e \<Longrightarrow> flow_init X fuel target cache vo w = Inl e"
  by (simp add: flow_init_def)

text \<open>
  Claim C8. Building the ownership map from a list of stages in which two distinct stages
  declare an output of the same name raises the configuration error, and so does the
  construction of the flow; when no two distinct stages share an output name, the map is
  built and sends every declared output name to the stage that declares it (a stage may
  declare a name twice), and holds nothing else.
\<close>

theorem map_outputs_to_stages_unique_owner:
  "(shared_output stgs \<longrightarrow>
      (\<exists>n a b. a \<in> set stgs \<and> b \<in> set stgs \<and> a \<noteq> b \<and> n \<in> out_names a \<and> n \<in> out_names b \<and>
         map_outputs_to_stages stgs = Inl (DuplicateProvider n (name a) (name b)))) \<and>
   (shared_output (stages X) \<longrightarrow>
      (\<exists>n a b. a \<in> set (stages X) \<and> b \<in> set (stages X) \<and> a \<noteq> b \<and>
         flow_init X fuel target cache vo w = Inl (DuplicateProvider n (name a) (name b)))) \<and>
   (\<not> shared_output stgs \<longrightarrow>
      (\<exists>os. map_outputs_to_stages stgs = Inr os \<and>
         (\<forall>s \<in> set stgs. \<forall>n \<in> out_names s. os n = Some s) \<and>
         dom os = \<Union> (out_names ` set stgs)))"
proof (intro conjI impI)
  assume "shared_output stgs"
  with map_outputs_to_stages_sound[of stgs]
  show "\<exists>n a b. a \<in> set stgs \<and> b \<in> set stgs \<and> a \<noteq> b \<and> n \<in> out_names a \<and> n \<in> out_names b \<and>
         map_outputs_to_stages stgs = Inl (DuplicateProvider n (name a) (name b))"
    by blast
next
  assume "shared_output (stages X)"
  with map_outputs_to_stages_sound[of "stages X"] obtain n a b where
    h: "a \<in> set (stages X)" "b \<in> set (stages X)" "a \<noteq> b"
       "map_outputs_to_stages (stages X) = Inl (DuplicateProvider n (name a) (name b))"
    by blast
  from flow_init_ownership_error[OF h(4)] h(1,2,3)
  show "\<exists>n a b. a \<in> set (stages X) \<and> b \<in> set (stages X) \<and> a \<noteq> b \<and>
         flow_init X fuel target cache vo w = Inl (DuplicateProvider n (name a) (name b))"
    by blast
next
  assume "\<not> shared_output stgs"
  with map_outputs_to_stages_sound[of stgs]
  show "\<exists>os. map_outputs_to_stages stgs = Inr os \<and>
         (\<forall>s \<in> set stgs. \<forall>n \<in> out_names s. os n = Some s) \<and>
         dom os = \<Union> (out_names ` set stgs)"
    by blast
qed

theorem map_outputs_to_stages_unique_owner_witness:
  "shared_output [stage_a, stage_x2] \<and>
   map_outputs_to_stages [stage_a, stage_x2] = Inl (DuplicateProvider ''x'' ''A'' ''X2'') \<and>
   flow_init (example_env [stage_a, stage_x2] [] (\<lambda>s. []) (\<lambda>s w. w)) 3 ''x'' None
       (\<lambda>s. Map.empty) Map.empty = Inl (DuplicateProvider ''x'' ''A'' ''X2'') \<and>
   \<not> shared_output [stage_a, stage_b] \<and>
   (\<exists>os. map_outputs_to_stages [stage_a, stage_b] = Inr os \<and>
      os ''x'' = Some stage_a \<and> os ''bitstream'' = Some stage_b)"
proof -
  let ?X = "example_env [stage_a, stage_x2] [] (\<lambda>s. []) (\<lambda>s w. w)"
  have s1: "shared_output [stage_a, stage_x2]"
    unfolding shared_output_def
    apply (rule bexI[of _ stage_a])
     apply (rule bexI[of _ stage_x2])
    by (simp_all add: stage_a_def stage_x2_def out_names_def)
  have st: "stages ?X = [stage_a, stage_x2]" by (simp add: example_env_def)
  have v: "map_outputs_to_stages [stage_a, stage_x2] = Inl (DuplicateProvider ''x'' ''A'' ''X2'')"
    by (simp add: map_outputs_to_stages_def stage_a_def stage_x2_def)
  note t1 = map_outputs_to_stages_unique_owner
              [where stgs = "[stage_a, stage_x2]" and X = ?X and fuel = 3 and target = "''x''"
                 and cache = None and vo = "\<lambda>s. Map.empty" and w = Map.empty]
  have sx: "shared_output (stages ?X)" using s1 st by simp
  from t1[THEN conjunct2, THEN conjunct1, rule_format, OF sx] obtain n and a b :: stage where
    f: "flow_init ?X 3 ''x'' None (\<lambda>s. Map.empty) Map.empty = Inl (DuplicateProvider n (name a) (name b))"
    by blast
  have "flow_init ?X 3 ''x'' None (\<lambda>s. Map.empty) Map.empty = Inl (DuplicateProvider ''x'' ''A'' ''X2'')"
    using f flow_init_ownership_error[of ?X, unfolded st, OF v] by simp
  note e = this
  have s2: "\<not> shared_output [stage_a, stage_b]"
    by (simp add: shared_output_def stage_a_def stage_b_def out_names_def)
  note t2 = map_outputs_to_stages_unique_owner
              [where stgs = "[stage_a, stage_b]" and X = ?X and fuel = 3 and target = "''x''"
                 and cache = None and vo = "\<lambda>s. Map.empty" and w = Map.empty]
  from s2 t2
  obtain os where o: "map_outputs_to_stages [stage_a, stage_b] = Inr os"
      "\<forall>s \<in> set [stage_a, stage_b]. \<forall>n \<in> out_names s. os n = Some s"
    by blast
  have "''x'' \<in> out_names stage_a" "''bitstream'' \<in> out_names stage_b"
    by (simp_all add: out_names_def stage_a_def stage_b_def)
  with o(2) have "os ''x'' = Some stage_a" "os ''bitstream'' = Some stage_b"
    by simp_all
  with s1 v e s2 o(1) show ?thesis by blast
qed

subsection \<open>The existence check is defined on strings and lists only\<close>

lemma req_exists_error_kind:
  "req_exists ex v = Inl e \<Longrightarrow> \<exists>u. e = ReqExistsError u"
  "false_in_map_req_exists ex rs = Inl e \<Longrightarrow> \<exists>u. e = ReqExistsError u"
  by (induction ex v and ex rs arbitrary: e and e rule: req_exists_false_in_map_req_exists.induct)
     (auto split: sum.splits if_splits)

lemma req_exists_paths:
  "str_or_list v \<Longrightarrow> \<exists>b. req_exists ex v = Inr b"
  "list_all str_or_list rs \<Longrightarrow>
     false_in_map_req_exists ex rs = Inr (\<exists>r \<in> set rs. req_exists ex r = Inr False)"
proof (induction ex v and ex rs rule: req_exists_false_in_map_req_exists.induct)
  case (1 ex r)
  then show ?case by auto
next
  case (2 ex rs)
  then show ?case by simp
next
  case (3 ex kvs)
  then show ?case by simp
next
  case (4 ex)
  then show ?case by simp
next
  case (5 ex)
  then show ?case by simp
next
  case (6 ex r rs)
  from 6 have a: "str_or_list r" "list_all str_or_list rs" by simp_all
  from 6(1)[OF a(1)] obtain b where b: "req_exists ex r = Inr b" by blast
  show ?case
  proof (cases b)
    case True
    with b 6(2) a(2) show ?thesis by simp
  next
    case False
    with b show ?thesis by simp
  qed
qed

lemma req_exists_list_result:
  "false_in_map_req_exists ex rs = Inr b \<Longrightarrow> b = (\<exists>r \<in> set rs. req_exists ex r = Inr False)"
proof (induction rs)
  case Nil
  then show ?case by simp
next
  case (Cons r rs)
  then show ?case by (cases "req_exists ex r") (auto split: if_splits)
qed

lemma req_exists_other:
  "(\<forall>r. u \<noteq> PStr r) \<Longrightarrow> (\<forall>rs. u \<noteq> PList rs) \<Longrightarrow> req_exists ex u = Inl (ReqExistsError u)"
  by (cases u) simp_all

lemma cache_outputs_dict:
  "PDict kvs \<in> set vs \<Longrightarrow> \<exists>u. cache_outputs X vs st = Inl (ReqExistsError u)"
proof (induction vs arbitrary: st)
  case Nil
  then show ?case by simp
next
  case (Cons v vs)
  show ?case
  proof (cases "v = PDict kvs")
    case True
    then show ?thesis by (simp add: exists_on_def)
  next
    case False
    with Cons.prems have m: "PDict kvs \<in> set vs" by simp
    show ?thesis
    proof (cases "v = PNone")
      case True
      with Cons.IH[OF m] show ?thesis by simp
    next
      case nn: False
      show ?thesis
      proof (cases "exists_on X st v")
        case (Inl e)
        then obtain u where "e = ReqExistsError u"
          unfolding exists_on_def using req_exists_error_kind(1) by blast
        with Inl nn show ?thesis by simp
      next
        case (Inr present)
        with nn Cons.IH[OF m] show ?thesis
          by (cases "f4cache st") auto
      qed
    qed
  qed
qed

lemma filter_existing_deps_dict:
  "(n, PDict kvs) \<in> set deps \<Longrightarrow> \<exists>u. filter_existing_deps X w deps = Inl (ReqExistsError u)"
proof (induction deps)
  case Nil
  then show ?case by simp
next
  case (Cons d deps)
  obtain m p where d: "d = (m, p)" by (cases d)
  show ?case
  proof (cases "req_exists (path_exists X w) p")
    case (Inl e)
    then obtain u where "e = ReqExistsError u" using req_exists_error_kind(1) by blast
    with Inl d show ?thesis by simp
  next
    case (Inr b)
    then have "p \<noteq> PDict kvs" by auto
    with Cons.prems d have "(n, PDict kvs) \<in> set deps" by auto
    from Cons.IH[OF this] Inr d show ?thesis by auto
  qed
qed

lemma resolve_outputs_dict:
  assumes "module_map X provider (config_mod_runctx X provider st) (storage st) = Inr outputs"
    and "(k, PDict kvs) \<in> set outputs"
  shows "\<exists>u. resolve_outputs X provider st = Inl (ReqExistsError u)"
proof -
  from assms(2) have "PDict kvs \<in> set (map snd outputs)" by force
  from cache_outputs_dict[OF this, of X st] obtain u where
    "cache_outputs X (map snd outputs) st = Inl (ReqExistsError u)" by blast
  with assms(1) show ?thesis by (simp add: resolve_outputs_def)
qed

lemma process_take_dict:
  assumes "dict_get (dep_paths st) (io_name tk) = PDict kvs" and "kvs \<noteq> [] \<or> io_spec tk \<noteq> Req"
  shows "process_take X provider tk st = Inl (ReqExistsError (PDict kvs))"
  using assms by (auto simp: process_take_def will_differ_def exists_on_def Let_def)

lemma build_dep_dict:
  assumes "dict_get (dep_paths st) dep = PDict kvs" and "kvs \<noteq> []"
  shows "build_dep X (Suc n) dep st = Inl (ReqExistsError (PDict kvs), st)"
  using assms by (simp add: exists_on_def Let_def)

text \<open>
  Claim C10. \<^verbatim>\<open>req_exists\<close> answers for a string whether the path exists, answers
  \<^verbatim>\<open>True\<close> for the empty list, and for a list built from strings and lists the
  conjunction over its elements; every value built from strings and lists gets an answer.
  Every value that is neither a string nor a list, the dict and \<^verbatim>\<open>None\<close> among them,
  raises. So a dependency resolved to a dict aborts wherever its existence is checked:
  among the explicit dependencies at construction, as the input of a stage or as a
  predicted output during planning, and as the dependency being built during execution.
\<close>

theorem req_exists_total_only_on_paths:
  "req_exists ex (PStr r) = Inr (ex r) \<and>
   req_exists ex (PList []) = Inr True \<and>
   (list_all str_or_list rs \<longrightarrow>
      req_exists ex (PList rs) = Inr (\<forall>r \<in> set rs. req_exists ex r = Inr True)) \<and>
   (str_or_list v \<longrightarrow> (\<exists>b. req_exists ex v = Inr b)) \<and>
   ((\<forall>r. u \<noteq> PStr r) \<and> (\<forall>rs. u \<noteq> PList rs) \<longrightarrow> req_exists ex u = Inl (ReqExistsError u)) \<and>
   ((n, PDict kvs) \<in> set deps \<longrightarrow>
      (\<exists>e. filter_existing_deps X w deps = Inl (ReqExistsError e))) \<and>
   (dict_get (dep_paths st) (io_name tk) = PDict kvs \<and> (kvs \<noteq> [] \<or> io_spec tk \<noteq> Req) \<longrightarrow>
      process_take X provider tk st = Inl (ReqExistsError (PDict kvs))) \<and>
   (module_map X provider (config_mod_runctx X provider st) (storage st) = Inr outputs \<and>
      (k, PDict kvs) \<in> set outputs \<longrightarrow>
      (\<exists>e. resolve_outputs X provider st = Inl (ReqExistsError e))) \<and>
   (dict_get (dep_paths st) dep = PDict kvs \<and> kvs \<noteq> [] \<longrightarrow>
      build_dep X (Suc fuel) dep st = Inl (ReqExistsError (PDict kvs), st))"
proof (intro conjI impI)
  show "req_exists ex (PStr r) = Inr (ex r)" by simp
  show "req_exists ex (PList []) = Inr True" by simp
next
  assume a: "list_all str_or_list rs"
  have f: "false_in_map_req_exists ex rs = Inr (\<exists>r \<in> set rs. req_exists ex r = Inr False)"
    by (rule req_exists_paths(2)[OF a])
  have "\<forall>r \<in> set rs. \<exists>b. req_exists ex r = Inr b"
    using a req_exists_paths(1) by (auto simp: list_all_iff)
  then have "(\<not> (\<exists>r \<in> set rs. req_exists ex r = Inr False)) = (\<forall>r \<in> set rs. req_exists ex r = Inr True)"
    by (metis (full_types) Inr_inject)
  with f show "req_exists ex (PList rs) = Inr (\<forall>r \<in> set rs. req_exists ex r = Inr True)"
    by simp
next
  assume "str_or_list v"
  then show "\<exists>b. req_exists ex v = Inr b" by (rule req_exists_paths(1))
next
  assume "(\<forall>r. u \<noteq> PStr r) \<and> (\<forall>rs. u \<noteq> PList rs)"
  then show "req_exists ex u = Inl (ReqExistsError u)" by (simp add: req_exists_other)
next
  assume "(n, PDict kvs) \<in> set deps"
  then show "\<exists>e. filter_existing_deps X w deps = Inl (ReqExistsError e)"
    by (rule filter_existing_deps_dict)
next
  assume "dict_get (dep_paths st) (io_name tk) = PDict kvs \<and> (kvs \<noteq> [] \<or> io_spec tk \<noteq> Req)"
  then show "process_take X provider tk st = Inl (ReqExistsError (PDict kvs))"
    using process_take_dict[of st tk kvs X provider] by blast
next
  assume "module_map X provider (config_mod_runctx X provider st) (storage st) = Inr outputs \<and>
      (k, PDict kvs) \<in> set outputs"
  then show "\<exists>e. resolve_outputs X provider st = Inl (ReqExistsError e)"
    using resolve_outputs_dict by blast
next
  assume "dict_get (dep_paths st) dep = PDict kvs \<and> kvs \<noteq> []"
  then show "build_dep X (Suc fuel) dep st = Inl (ReqExistsError (PDict kvs), st)"
    using build_dep_dict[of st dep kvs X fuel] by blast
qed

theorem req_exists_total_only_on_paths_witness:
  "req_exists (\<lambda>p. p = ''a'') (PList [PStr ''a'', PList []]) = Inr True \<and>
   req_exists (\<lambda>p. p = ''a'') (PList [PStr ''a'', PStr ''b'']) = Inr False \<and>
   req_exists (\<lambda>p. p = ''a'') PNone = Inl (ReqExistsError PNone) \<and>
   build_dep (example_env [stage_b] [] (\<lambda>s. [(''bitstream'', PDict [(''k'', PStr ''a'')])]) (\<lambda>s w. w))
     (Suc 0) ''x''
     ((blank_flow Map.empty None)\<lparr>dep_paths := [''x'' \<mapsto> PDict [(''k'', PStr ''a'')]]\<rparr>) =
     Inl (ReqExistsError (PDict [(''k'', PStr ''a'')]),
          (blank_flow Map.empty None)\<lparr>dep_paths := [''x'' \<mapsto> PDict [(''k'', PStr ''a'')]]\<rparr>) \<and>
   process_take (example_env [stage_b] [] (\<lambda>s. [(''bitstream'', PDict [(''k'', PStr ''a'')])]) (\<lambda>s w. w))
     stage_b \<lparr>io_name = ''x'', io_spec = Req\<rparr>
     ((blank_flow Map.empty None)\<lparr>dep_paths := [''x'' \<mapsto> PDict [(''k'', PStr ''a'')]]\<rparr>) =
     Inl (ReqExistsError (PDict [(''k'', PStr ''a'')]))"
proof -
  let ?X = "example_env [stage_b] [] (\<lambda>s. [(''bitstream'', PDict [(''k'', PStr ''a'')])]) (\<lambda>s w. w)"
  let ?st = "(blank_flow Map.empty None)\<lparr>dep_paths := [''x'' \<mapsto> PDict [(''k'', PStr ''a'')]]\<rparr>"
  note t = req_exists_total_only_on_paths
     [where ex = "\<lambda>p. p = ''a''" and r = "''a''" and rs = "[PStr ''a'', PStr ''b'']"
        and v = "PList [PStr ''a'', PList []]" and u = PNone and n = "''x''"
        and kvs = "[(''k'', PStr ''a'')]" and deps = "[(''x'', PDict [(''k'', PStr ''a'')])]"
        and X = ?X and w = Map.empty and st = ?st and tk = "\<lparr>io_name = ''x'', io_spec = Req\<rparr>"
        and provider = stage_b and outputs = "[(''bitstream'', PDict [(''k'', PStr ''a'')])]"
        and k = "''bitstream''" and dep = "''x''" and fuel = 0]
  have h1: "list_all str_or_list [PStr ''a'', PStr ''b'']" by simp
  have h2: "str_or_list (PList [PStr ''a'', PList []])" by simp
  have h3: "(\<forall>r. PNone \<noteq> PStr r) \<and> (\<forall>rs. PNone \<noteq> PList rs)" by simp
  have h4: "(''x'', PDict [(''k'', PStr ''a'')]) \<in> set [(''x'', PDict [(''k'', PStr ''a'')])]" by simp
  have h5: "dict_get (dep_paths ?st) (io_name \<lparr>io_name = ''x'', io_spec = Req\<rparr>) = PDict [(''k'', PStr ''a'')]
            \<and> ([(''k'', PStr ''a'')] \<noteq> [] \<or> io_spec \<lparr>io_name = ''x'', io_spec = Req\<rparr> \<noteq> Req)"
    by (simp add: dict_get_def blank_flow_def)
  have h6: "module_map ?X stage_b (config_mod_runctx ?X stage_b ?st) (storage ?st) =
              Inr [(''bitstream'', PDict [(''k'', PStr ''a'')])] \<and>
            (''bitstream'', PDict [(''k'', PStr ''a'')]) \<in> set [(''bitstream'', PDict [(''k'', PStr ''a'')])]"
    by (simp add: example_env_def)
  have h7: "dict_get (dep_paths ?st) ''x'' = PDict [(''k'', PStr ''a'')] \<and> [(''k'', PStr ''a'')] \<noteq> []"
    by (simp add: dict_get_def blank_flow_def)
  have a: "req_exists (\<lambda>p. p = ''a'') (PList [PStr ''a'', PStr ''b'']) = Inr False"
    using t h1 by simp
  have b: "req_exists (\<lambda>p. p = ''a'') (PList [PStr ''a'', PList []]) = Inr True"
    using t h2 by simp
  have c: "req_exists (\<lambda>p. p = ''a'') PNone = Inl (ReqExistsError PNone)"
    using t h3 by simp
  from t h5 have d: "process_take ?X stage_b \<lparr>io_name = ''x'', io_spec = Req\<rparr> ?st =
      Inl (ReqExistsError (PDict [(''k'', PStr ''a'')]))" by blast
  from t h7 have e: "build_dep ?X (Suc 0) ''x'' ?st = Inl (ReqExistsError (PDict [(''k'', PStr ''a'')]), ?st)"
    by blast
  from a b c d e show ?thesis by blast
qed

subsection \<open>Planning: relations between the flow before and after\<close>

lemma resolve_takes_rel:
  assumes tr: "\<And>a b c. R a b \<Longrightarrow> R b c \<Longrightarrow> R a c"
    and rf: "\<And>st. R st st"
    and pt: "\<And>provider tk st v. process_take X provider tk st = Inr v \<Longrightarrow> R st (verdict_state v)"
    and rd: "\<And>dep st st'. resolve_dependencies X n dep st = Inr st' \<Longrightarrow> R st st'"
  shows "resolve_takes X n provider tks st = Inr v \<Longrightarrow> R st (verdict_state v)"
proof (induction tks arbitrary: st)
  case Nil
  then show ?case using rf by auto
next
  case (Cons tk rest)
  from Cons.prems obtain st1 where s1: "resolve_dependencies X n (io_name tk) st = Inr st1"
    by (cases "resolve_dependencies X n (io_name tk) st") simp_all
  from rd[OF s1] have r1: "R st st1" .
  from Cons.prems s1 obtain v1 where v1: "process_take X provider tk st1 = Inr v1"
    by (cases "process_take X provider tk st1") simp_all
  from pt[OF v1] have r2: "R st1 (verdict_state v1)" .
  show ?case
  proof (cases v1)
    case (Abandoned st2)
    with Cons.prems s1 v1 have "v = Abandoned st2" by simp
    with r1 r2 Abandoned show ?thesis using tr by auto
  next
    case (Proceed st2)
    with Cons.prems s1 v1 have "resolve_takes X n provider rest st2 = Inr v" by simp
    from Cons.IH[OF this] have "R st2 (verdict_state v)" .
    with r2 Proceed have "R st1 (verdict_state v)" using tr by auto
    with r1 show ?thesis using tr by blast
  qed
qed

lemma resolve_dependencies_Suc:
  "resolve_dependencies X (Suc n) dep st =
     (if truthy (dict_get (dep_paths (init_dep_status dep st)) dep) \<and>
         os_map (init_dep_status dep st) dep = None
      then Inr (init_dep_status dep st)
      else
        (case os_map (init_dep_status dep st) dep of
           None \<Rightarrow> Inr (init_dep_status dep st)
         | Some provider \<Rightarrow>
             if name provider \<in> stages_checked (init_dep_status dep st)
             then Inr (init_dep_status dep st)
             else
               (case resolve_takes X n provider (takes provider) (init_dep_status dep st) of
                  Inl e \<Rightarrow> Inl e
                | Inr (Abandoned st1) \<Rightarrow> Inr st1
                | Inr (Proceed st1) \<Rightarrow> resolve_outputs X provider st1)))"
  by (simp add: Let_def)

lemma resolve_dependencies_rel:
  assumes tr: "\<And>a b c. R a b \<Longrightarrow> R b c \<Longrightarrow> R a c"
    and rf: "\<And>st. R st st"
    and ini: "\<And>st dep. R st (init_dep_status dep st)"
    and pt: "\<And>provider tk st v. process_take X provider tk st = Inr v \<Longrightarrow> R st (verdict_state v)"
    and ro: "\<And>provider st st'. resolve_outputs X provider st = Inr st' \<Longrightarrow> R st st'"
  shows "resolve_dependencies X n dep st = Inr st' \<Longrightarrow> R st st'"
proof (induction n arbitrary: dep st st')
  case 0
  then show ?case by simp
next
  case (Suc n)
  let ?st0 = "init_dep_status dep st"
  have r0: "R st ?st0" by (rule ini)
  note a = Suc.prems[unfolded resolve_dependencies_Suc]
  show ?case
  proof (cases "truthy (dict_get (dep_paths ?st0) dep) \<and> os_map ?st0 dep = None")
    case True
    with a have "st' = ?st0" by simp
    with r0 show ?thesis by simp
  next
    case nt: False
    show ?thesis
    proof (cases "os_map ?st0 dep")
      case None
      with a nt have "st' = ?st0" by simp
      with r0 show ?thesis by simp
    next
      case (Some provider)
      show ?thesis
      proof (cases "name provider \<in> stages_checked ?st0")
        case True
        with a nt Some have "st' = ?st0" by simp
        with r0 show ?thesis by simp
      next
        case nc: False
        from a nt Some nc obtain v where
          v: "resolve_takes X n provider (takes provider) ?st0 = Inr v"
          by (cases "resolve_takes X n provider (takes provider) ?st0") simp_all
        have ih: "R ?st0 (verdict_state v)"
        proof (rule resolve_takes_rel[where R = R and X = X and n = n, OF _ _ _ _ v])
          show "\<And>a b c. R a b \<Longrightarrow> R b c \<Longrightarrow> R a c" by (rule tr)
          show "\<And>st. R st st" by (rule rf)
          show "\<And>provider tk st v. process_take X provider tk st = Inr v \<Longrightarrow> R st (verdict_state v)"
            by (rule pt)
          show "\<And>dep st st'. resolve_dependencies X n dep st = Inr st' \<Longrightarrow> R st st'"
            by (rule Suc.IH)
        qed
        show ?thesis
        proof (cases v)
          case (Abandoned st1)
          with a nt Some nc v have "st' = st1" by simp
          with ih Abandoned r0 show ?thesis using tr by auto
        next
          case (Proceed st1)
          with a nt Some nc v have "resolve_outputs X provider st1 = Inr st'" by simp
          from ro[OF this] ih Proceed have "R ?st0 st'" using tr by auto
          with r0 show ?thesis using tr by blast
        qed
      qed
    qed
  qed
qed

lemma cache_outputs_frame:
  "cache_outputs X vs st = Inr st' \<Longrightarrow> \<exists>c. st' = st\<lparr>f4cache := c\<rparr>"
proof (induction vs arbitrary: st)
  case Nil
  then have "st' = st\<lparr>f4cache := f4cache st\<rparr>" by simp
  then show ?case by blast
next
  case (Cons v vs)
  show ?case
  proof (cases "v = PNone")
    case True
    with Cons show ?thesis by simp
  next
    case nn: False
    from Cons.prems nn obtain present where p: "exists_on X st v = Inr present"
      by (cases "exists_on X st v") simp_all
    show ?thesis
    proof (cases "f4cache st")
      case None
      with Cons.prems nn p have "cache_outputs X vs st = Inr st'" by simp
      from Cons.IH[OF this] show ?thesis .
    next
      case (Some c)
      show ?thesis
      proof (cases present)
        case True
        with Cons.prems nn p Some
        have "cache_outputs X vs (st\<lparr>f4cache := Some (cache_deps X v (storage st) c)\<rparr>) = Inr st'"
          by simp
        from Cons.IH[OF this] obtain c' where
          "st' = st\<lparr>f4cache := Some (cache_deps X v (storage st) c)\<rparr>\<lparr>f4cache := c'\<rparr>" by blast
        then have "st' = st\<lparr>f4cache := c'\<rparr>" by simp
        then show ?thesis by blast
      next
        case False
        with Cons.prems nn p Some have "cache_outputs X vs st = Inr st'" by simp
        from Cons.IH[OF this] show ?thesis .
      qed
    qed
  qed
qed

lemma mark_missing_outputs_frame:
  "mark_missing_outputs X provider outs st = Inr st' \<Longrightarrow>
   st' = st \<or> st' = st\<lparr>run_stages := insert (name provider) (run_stages st)\<rparr>"
proof (induction outs arbitrary: st)
  case Nil
  then show ?case by simp
next
  case (Cons kv outs)
  obtain k v where kv: "kv = (k, v)" by (cases kv)
  show ?case
  proof (cases "v = PNone")
    case True
    with Cons kv show ?thesis by simp
  next
    case nn: False
    from Cons.prems nn kv obtain present where p: "exists_on X st v = Inr present"
      by (cases "exists_on X st v") simp_all
    show ?thesis
    proof (cases present)
      case True
      with Cons.prems nn kv p have "mark_missing_outputs X provider outs st = Inr st'" by simp
      from Cons.IH[OF this] show ?thesis .
    next
      case False
      with Cons.prems nn kv p
      have "mark_missing_outputs X provider outs
              (st\<lparr>run_stages := insert (name provider) (run_stages st)\<rparr>) = Inr st'" by simp
      from Cons.IH[OF this] show ?thesis by auto
    qed
  qed
qed

lemma verify_outputs_frame:
  "verify_outputs X provider outputs outs st = Inr st' \<Longrightarrow>
   \<exists>vo. st' = st\<lparr>os_map := os_map st', value_overrides := vo\<rparr>"
proof (induction outs arbitrary: st)
  case Nil
  then have "st' = st\<lparr>os_map := os_map st', value_overrides := value_overrides st\<rparr>" by simp
  then show ?case by blast
next
  case (Cons oo rest)
  let ?r = "(if io_name oo \<notin> fst ` set outputs
            then (if io_spec oo = Req \<or> (io_spec oo = Demand \<and> requested X oo)
                  then Inl (FatalNoMapping (name provider) (io_name oo))
                  else (case os_map st (io_name oo) of
                          None \<Rightarrow> Inl (KeyError (io_name oo))
                        | Some owner \<Rightarrow> Inr (st\<lparr>os_map := (os_map st)(io_name oo := None)\<rparr>)))
            else Inr st)"
  from Cons.prems obtain st1 where s1: "?r = Inr st1"
    by (cases ?r) simp_all
  then have f1: "\<exists>os. st1 = st\<lparr>os_map := os\<rparr>"
    by (auto split: if_splits option.splits intro: exI[of _ "os_map st"])
  let ?st2 = "(if dict_get (map_of outputs) (io_name oo) \<noteq> PNone
                 then st1\<lparr>value_overrides :=
                            (value_overrides st1)
                              (name provider :=
                                 (value_overrides st1 (name provider))
                                   (dep_value_str (io_name oo) \<mapsto> dict_get (map_of outputs) (io_name oo)))\<rparr>
                 else st1)"
  from Cons.prems s1 have "verify_outputs X provider outputs rest ?st2 = Inr st'"
    by (simp add: Let_def)
  from Cons.IH[OF this] obtain vo where v: "st' = ?st2\<lparr>os_map := os_map st', value_overrides := vo\<rparr>"
    by blast
  from f1 obtain os where "st1 = st\<lparr>os_map := os\<rparr>" by blast
  with v have "st' = st\<lparr>os_map := os_map st', value_overrides := vo\<rparr>"
    by (simp split: if_splits)
  then show ?case by blast
qed

lemma resolve_outputs_frame:
  assumes "resolve_outputs X provider st = Inr st'"
  shows "deps_rebuilds st' = deps_rebuilds st \<and> out st' = out st \<and> storage st' = storage st
         \<and> skip_dep_warnings st' = skip_dep_warnings st"
proof -
  from assms obtain outputs where
    m: "module_map X provider (config_mod_runctx X provider st) (storage st) = Inr outputs"
    by (cases "module_map X provider (config_mod_runctx X provider st) (storage st)")
       (simp_all add: resolve_outputs_def)
  from assms m obtain st1 where c: "cache_outputs X (map snd outputs) st = Inr st1"
    by (cases "cache_outputs X (map snd outputs) st") (simp_all add: resolve_outputs_def)
  let ?st2 = "st1\<lparr>stages_checked := insert (name provider) (stages_checked st1),
                  dep_paths := dep_paths st1 ++ map_of outputs\<rparr>"
  from assms m c obtain st3 where mm: "mark_missing_outputs X provider outputs ?st2 = Inr st3"
    by (cases "mark_missing_outputs X provider outputs ?st2")
       (simp_all add: resolve_outputs_def Let_def)
  from assms m c mm have v: "verify_outputs X provider outputs (produces provider) st3 = Inr st'"
    by (simp add: resolve_outputs_def Let_def)
  from cache_outputs_frame[OF c] obtain c' where f1: "st1 = st\<lparr>f4cache := c'\<rparr>" by blast
  from mark_missing_outputs_frame[OF mm]
  have f2: "st3 = ?st2 \<or> st3 = ?st2\<lparr>run_stages := insert (name provider) (run_stages ?st2)\<rparr>" .
  from verify_outputs_frame[OF v] obtain vo where
    f3: "st' = st3\<lparr>os_map := os_map st', value_overrides := vo\<rparr>" by blast
  have "deps_rebuilds st3 = deps_rebuilds st \<and> out st3 = out st \<and> storage st3 = storage st
         \<and> skip_dep_warnings st3 = skip_dep_warnings st"
    using f1 f2 by auto
  moreover have "deps_rebuilds st' = deps_rebuilds st3 \<and> out st' = out st3 \<and> storage st' = storage st3
         \<and> skip_dep_warnings st' = skip_dep_warnings st3"
    by (subst f3, simp)+
  ultimately show ?thesis by simp
qed

lemma flow_dep_will_differ_value_overrides [simp]:
  "flow_dep_will_differ X (st\<lparr>value_overrides := vo\<rparr>) dep paths consumer =
   flow_dep_will_differ X st dep paths consumer"
  by (simp add: flow_dep_will_differ_def split: option.splits)

lemma exists_on_value_overrides [simp]:
  "exists_on X (st\<lparr>value_overrides := vo\<rparr>) paths = exists_on X st paths"
  by (simp add: exists_on_def)

lemma will_differ_value_overrides [simp]:
  "will_differ X (st\<lparr>value_overrides := vo\<rparr>) provider tk paths = will_differ X st provider tk paths"
  by (simp add: will_differ_def split: sum.splits)

lemma cause_rebuild_dom:
  "cause_rebuild st provider tk = Inr st' \<Longrightarrow> dom (deps_rebuilds st') = dom (deps_rebuilds st)"
  by (auto simp: cause_rebuild_def Let_def sfprint_def split: option.splits if_splits)

lemma process_take_dom:
  assumes "process_take X provider tk st = Inr v"
  shows "dom (deps_rebuilds st) \<subseteq> dom (deps_rebuilds (verdict_state v))"
proof -
  let ?paths = "dict_get (dep_paths st) (io_name tk)"
  let ?st1 = "st\<lparr>value_overrides :=
                     (value_overrides st)
                       (name provider :=
                          (value_overrides st (name provider))
                            (dep_value_str (io_name tk) \<mapsto> ?paths))\<rparr>"
  show ?thesis
  proof (cases "\<not> truthy ?paths \<and> io_spec tk = Req")
    case True
    with assms show ?thesis by (auto simp: process_take_def Let_def sfprint_def)
  next
    case False
    with assms obtain d where d: "will_differ X st provider tk ?paths = Inr d"
      by (cases "will_differ X st provider tk ?paths") (auto simp: process_take_def Let_def)
    show ?thesis
    proof (cases d)
      case True
      with assms False d obtain st2 where c: "cause_rebuild ?st1 provider tk = Inr st2" "v = Proceed st2"
        by (cases "cause_rebuild ?st1 provider tk") (auto simp: process_take_def Let_def)
      from cause_rebuild_dom[OF c(1)] c(2) show ?thesis by simp
    next
      case nd: False
      with assms False d have "v = Proceed ?st1" by (auto simp: process_take_def Let_def)
      then show ?thesis by simp
    qed
  qed
qed

lemma init_dep_status_idem [simp]:
  "init_dep_status dep (init_dep_status dep st) = init_dep_status dep st"
  by (simp add: init_dep_status_def)

lemma init_dep_status_dom: "dep \<in> dom (deps_rebuilds (init_dep_status dep st))"
  by (auto simp: init_dep_status_def)

lemma resolve_dependencies_init:
  "resolve_dependencies X n dep (init_dep_status dep st) = resolve_dependencies X n dep st"
  by (cases n) (simp_all only: resolve_dependencies.simps init_dep_status_idem)

lemma resolve_dependencies_dom:
  "resolve_dependencies X n dep st = Inr st' \<Longrightarrow> dom (deps_rebuilds st) \<subseteq> dom (deps_rebuilds st')"
proof (rule resolve_dependencies_rel[where R = "\<lambda>a b. dom (deps_rebuilds a) \<subseteq> dom (deps_rebuilds b)"
        and X = X and n = n and dep = dep])
  show "\<And>st dep. dom (deps_rebuilds st) \<subseteq> dom (deps_rebuilds (init_dep_status dep st))"
    by (auto simp: init_dep_status_def)
  show "\<And>provider tk st v. process_take X provider tk st = Inr v \<Longrightarrow>
          dom (deps_rebuilds st) \<subseteq> dom (deps_rebuilds (verdict_state v))"
    by (rule process_take_dom)
  show "\<And>provider st st'. resolve_outputs X provider st = Inr st' \<Longrightarrow>
          dom (deps_rebuilds st) \<subseteq> dom (deps_rebuilds st')"
    using resolve_outputs_frame by fastforce
qed auto

lemma resolve_dependencies_counter:
  assumes "resolve_dependencies X n dep st = Inr st'"
  shows "\<exists>k. deps_rebuilds st' dep = Some k"
proof -
  from assms have "resolve_dependencies X n dep (init_dep_status dep st) = Inr st'"
    by (simp add: resolve_dependencies_init)
  from resolve_dependencies_dom[OF this] init_dep_status_dom[of dep st]
  show ?thesis by blast
qed

subsection \<open>Planning and execution: what the validation of a prediction changes\<close>

lemma verify_outputs_step:
  "verify_outputs X provider outputs (oo # rest) st =
     (if io_name oo \<notin> fst ` set outputs
      then (if io_spec oo = Req \<or> (io_spec oo = Demand \<and> requested X oo)
            then Inl (FatalNoMapping (name provider) (io_name oo))
            else (case os_map st (io_name oo) of
                    None \<Rightarrow> Inl (KeyError (io_name oo))
                  | Some owner \<Rightarrow>
                      verify_outputs X provider outputs rest
                        (st\<lparr>os_map := (os_map st)(io_name oo := None)\<rparr>)))
      else verify_outputs X provider outputs rest
             (if dict_get (map_of outputs) (io_name oo) \<noteq> PNone
              then st\<lparr>value_overrides :=
                        (value_overrides st)
                          (name provider :=
                             (value_overrides st (name provider))
                               (dep_value_str (io_name oo) \<mapsto> dict_get (map_of outputs) (io_name oo)))\<rparr>
              else st))"
proof -
  have "io_name oo \<notin> fst ` set outputs \<Longrightarrow> dict_get (map_of outputs) (io_name oo) = PNone"
    by (simp add: dict_get_def map_of_eq_None_iff[THEN iffD2])
  then show ?thesis
    by (auto simp: Let_def split: option.splits)
qed

lemma verify_outputs_fatal:
  assumes "distinct (map io_name outs)"
    and "\<forall>oo \<in> set outs. os_map st (io_name oo) \<noteq> None"
    and "\<exists>oo \<in> set outs. io_name oo \<notin> fst ` set outputs \<and>
           (io_spec oo = Req \<or> (io_spec oo = Demand \<and> requested X oo))"
  shows "\<exists>oo \<in> set outs. io_name oo \<notin> fst ` set outputs \<and>
           (io_spec oo = Req \<or> (io_spec oo = Demand \<and> requested X oo)) \<and>
           verify_outputs X provider outputs outs st = Inl (FatalNoMapping (name provider) (io_name oo))"
  using assms
proof (induction outs arbitrary: st)
  case Nil
  then show ?case by simp
next
  case (Cons oo rest)
  let ?fatal = "\<lambda>oo. io_name oo \<notin> fst ` set outputs \<and>
           (io_spec oo = Req \<or> (io_spec oo = Demand \<and> requested X oo))"
  show ?case
  proof (cases "?fatal oo")
    case True
    then have "verify_outputs X provider outputs (oo # rest) st =
                 Inl (FatalNoMapping (name provider) (io_name oo))"
      by (auto simp add: verify_outputs_step simp del: verify_outputs.simps)
    with True show ?thesis by (intro bexI[of _ oo]) simp_all
  next
    case nf: False
    with Cons.prems(3) have ex: "\<exists>oo \<in> set rest. ?fatal oo" by auto
    have d: "distinct (map io_name rest)" using Cons.prems(1) by simp
    have nin: "\<forall>o' \<in> set rest. io_name o' \<noteq> io_name oo"
    proof (intro ballI notI)
      fix o' assume "o' \<in> set rest" "io_name o' = io_name oo"
      then have "io_name oo \<in> set (map io_name rest)"
        using image_eqI[of "io_name oo" io_name o' "set rest"] by simp
      with Cons.prems(1) show False by simp
    qed
    show ?thesis
    proof (cases "io_name oo \<notin> fst ` set outputs")
      case True
      from Cons.prems(2) obtain owner where ow: "os_map st (io_name oo) = Some owner" by auto
      let ?st1 = "st\<lparr>os_map := (os_map st)(io_name oo := None)\<rparr>"
      have k: "\<forall>o' \<in> set rest. os_map ?st1 (io_name o') \<noteq> None"
        using Cons.prems(2) nin by simp
      from Cons.IH[OF d k ex] obtain o' where
        o': "o' \<in> set rest" "?fatal o'"
            "verify_outputs X provider outputs rest ?st1 = Inl (FatalNoMapping (name provider) (io_name o'))"
        by blast
      have "verify_outputs X provider outputs (oo # rest) st =
              verify_outputs X provider outputs rest ?st1"
        using True nf ow by (auto simp add: verify_outputs_step simp del: verify_outputs.simps)
      with o' show ?thesis by (intro bexI[of _ o']) simp_all
    next
      case False
      let ?st1 = "(if dict_get (map_of outputs) (io_name oo) \<noteq> PNone
              then st\<lparr>value_overrides :=
                        (value_overrides st)
                          (name provider :=
                             (value_overrides st (name provider))
                               (dep_value_str (io_name oo) \<mapsto> dict_get (map_of outputs) (io_name oo)))\<rparr>
              else st)"
      have k: "\<forall>o' \<in> set rest. os_map ?st1 (io_name o') \<noteq> None"
        using Cons.prems(2) by simp
      from Cons.IH[OF d k ex] obtain o' where
        o': "o' \<in> set rest" "?fatal o'"
            "verify_outputs X provider outputs rest ?st1 = Inl (FatalNoMapping (name provider) (io_name o'))"
        by blast
      have "verify_outputs X provider outputs (oo # rest) st =
              verify_outputs X provider outputs rest ?st1"
        using False by (auto simp add: verify_outputs_step simp del: verify_outputs.simps)
      with o' show ?thesis by (intro bexI[of _ o']) simp_all
    qed
  qed
qed

lemma verify_outputs_prune:
  assumes "distinct (map io_name outs)"
    and "\<forall>oo \<in> set outs. os_map st (io_name oo) \<noteq> None"
    and "\<not> (\<exists>oo \<in> set outs. io_name oo \<notin> fst ` set outputs \<and>
           (io_spec oo = Req \<or> (io_spec oo = Demand \<and> requested X oo)))"
  shows "\<exists>st'. verify_outputs X provider outputs outs st = Inr st' \<and>
           os_map st' = (\<lambda>n. if n \<in> io_name ` {oo \<in> set outs. io_name oo \<notin> fst ` set outputs}
                              then None else os_map st n) \<and>
           out st' = out st"
  using assms
proof (induction outs arbitrary: st)
  case Nil
  then show ?case by simp
next
  case (Cons oo rest)
  have d: "distinct (map io_name rest)" using Cons.prems(1) by simp
have nin: "\<forall>o' \<in> set rest. io_name o' \<noteq> io_name oo"
  proof (intro ballI notI)
    fix o' assume "o' \<in> set rest" "io_name o' = io_name oo"
    then have "io_name oo \<in> set (map io_name rest)"
        using image_eqI[of "io_name oo" io_name o' "set rest"] by simp
    with Cons.prems(1) show False by simp
  qed
  have nf: "\<not> (\<exists>oo \<in> set rest. io_name oo \<notin> fst ` set outputs \<and>
           (io_spec oo = Req \<or> (io_spec oo = Demand \<and> requested X oo)))"
    using Cons.prems(3) by auto
  have nfo: "\<not> (io_name oo \<notin> fst ` set outputs \<and>
           (io_spec oo = Req \<or> (io_spec oo = Demand \<and> requested X oo)))"
    using Cons.prems(3) by auto
  show ?case
  proof (cases "io_name oo \<notin> fst ` set outputs")
    case True
    from Cons.prems(2) obtain owner where ow: "os_map st (io_name oo) = Some owner" by auto
    let ?st1 = "st\<lparr>os_map := (os_map st)(io_name oo := None)\<rparr>"
    have k: "\<forall>o' \<in> set rest. os_map ?st1 (io_name o') \<noteq> None"
      using Cons.prems(2) nin by simp
    from Cons.IH[OF d k nf] obtain st' where
      s: "verify_outputs X provider outputs rest ?st1 = Inr st'"
         "os_map st' = (\<lambda>n. if n \<in> io_name ` {oo \<in> set rest. io_name oo \<notin> fst ` set outputs}
                              then None else os_map ?st1 n)"
         "out st' = out ?st1"
      by blast
    have e: "verify_outputs X provider outputs (oo # rest) st =
              verify_outputs X provider outputs rest ?st1"
      using True nfo ow by (auto simp add: verify_outputs_step simp del: verify_outputs.simps)
    have "os_map st' = (\<lambda>n. if n \<in> io_name ` {o' \<in> set (oo # rest). io_name o' \<notin> fst ` set outputs}
                              then None else os_map st n)"
      using s(2) True by (auto simp: fun_eq_iff)
    with s e show ?thesis by simp
  next
    case False
    let ?st1 = "(if dict_get (map_of outputs) (io_name oo) \<noteq> PNone
              then st\<lparr>value_overrides :=
                        (value_overrides st)
                          (name provider :=
                             (value_overrides st (name provider))
                               (dep_value_str (io_name oo) \<mapsto> dict_get (map_of outputs) (io_name oo)))\<rparr>
              else st)"
    have k: "\<forall>o' \<in> set rest. os_map ?st1 (io_name o') \<noteq> None"
      using Cons.prems(2) by simp
    from Cons.IH[OF d k nf] obtain st' where
      s: "verify_outputs X provider outputs rest ?st1 = Inr st'"
         "os_map st' = (\<lambda>n. if n \<in> io_name ` {oo \<in> set rest. io_name oo \<notin> fst ` set outputs}
                              then None else os_map ?st1 n)"
         "out st' = out ?st1"
      by blast
    have e: "verify_outputs X provider outputs (oo # rest) st =
              verify_outputs X provider outputs rest ?st1"
      using False by (auto simp add: verify_outputs_step simp del: verify_outputs.simps)
    have "os_map st' = (\<lambda>n. if n \<in> io_name ` {o' \<in> set (oo # rest). io_name o' \<notin> fst ` set outputs}
                              then None else os_map st n)"
      using s(2) False by (auto simp: fun_eq_iff)
    moreover have "out st' = out st" using s(3) by simp
    ultimately show ?thesis using s(1) e by simp
  qed
qed

lemma build_takes_rel:
  assumes tr: "\<And>a b c. R a b \<Longrightarrow> R b c \<Longrightarrow> R a c"
    and rf: "\<And>st. R st st"
    and cu: "\<And>st c c'. f4cache st = Some c \<Longrightarrow> R st (st\<lparr>f4cache := Some c'\<rparr>)"
    and bd: "\<And>dep st. R st (outcome_state (build_dep X n dep st))"
  shows "R st (outcome_state (build_takes X n provider tks acc st))"
proof (induction tks arbitrary: acc st)
  case Nil
  show ?case using rf by simp
next
  case (Cons p_dep rest)
  have r1: "R st (outcome_state (build_dep X n (io_name p_dep) st))" by (rule bd)
  show ?case
  proof (cases "build_dep X n (io_name p_dep) st")
    case (Inl err)
    with r1 show ?thesis by simp
  next
    case (Inr r)
    obtain built st1 where r: "r = (built, st1)" by (cases r)
    with Inr r1 have r1': "R st st1" by simp
    show ?thesis
    proof (cases built)
      case False
      show ?thesis
      proof (cases "io_spec p_dep = Req")
        case True
        with Inr r False r1' show ?thesis by simp
      next
        case nr: False
        have "R st1 (outcome_state (build_takes X n provider rest acc st1))" by (rule Cons.IH)
        with r1' have "R st (outcome_state (build_takes X n provider rest acc st1))"
          using tr by blast
        with Inr r False nr show ?thesis by simp
      qed
    next
      case True
      show ?thesis
      proof (cases "f4cache st1")
        case None
        have "R st1 (outcome_state (build_takes X n provider rest acc st1))" by (rule Cons.IH)
        with r1' have "R st (outcome_state (build_takes X n provider rest acc st1))"
          using tr by blast
        with Inr r True None show ?thesis by simp
      next
        case (Some c)
        show ?thesis
        proof (cases "dict_index (dep_paths st1) (io_name p_dep)")
          case (Inl e)
          with Inr r True Some r1' show ?thesis by simp
        next
          case ip: (Inr p_paths)
          show ?thesis
          proof (cases "update_dep_statuses X (storage st1) p_paths (name provider) c")
            case (Inl e)
            with Inr r True Some ip r1' show ?thesis by simp
          next
            case up: (Inr dc)
            obtain differs c' where dc: "dc = (differs, c')" by (cases dc)
            let ?st2 = "st1\<lparr>f4cache := Some c'\<rparr>"
            have "R st1 ?st2" using Some by (rule cu)
            moreover have "R ?st2 (outcome_state (build_takes X n provider rest (acc \<or> differs) ?st2))"
              by (rule Cons.IH)
            ultimately have "R st (outcome_state (build_takes X n provider rest (acc \<or> differs) ?st2))"
              using r1' tr by blast
            with Inr r True Some ip up dc show ?thesis by simp
          qed
        qed
      qed
    qed
  qed
qed

lemma build_dep_Suc:
  "build_dep X (Suc n) dep st =
     (if \<not> truthy (dict_get (dep_paths st) dep) then Inr (False, sfprint (Unresolved dep) st)
      else
        (case exists_on X st (dict_get (dep_paths st) dep) of
           Inl e \<Rightarrow> Inl (e, st)
         | Inr present \<Rightarrow>
             if present \<and> \<not> (case os_map st dep of
                                 Some provider \<Rightarrow> name provider \<in> run_stages st
                               | None \<Rightarrow> False)
             then Inr (True, st)
             else
               (case os_map st dep of
                  None \<Rightarrow> Inl (AssertionError, st)
                | Some provider \<Rightarrow>
                    (case build_takes X n provider (takes provider) (f4cache st = None) st of
                       Inl err \<Rightarrow> Inl err
                     | Inr (any_dep_differ, st1) \<Rightarrow>
                         finish_build X dep (dict_get (dep_paths st) dep) provider any_dep_differ st1))))"
  by (simp add: Let_def)

lemma build_dep_rel:
  assumes tr: "\<And>a b c. R a b \<Longrightarrow> R b c \<Longrightarrow> R a c"
    and rf: "\<And>st. R st st"
    and cu: "\<And>st c c'. f4cache st = Some c \<Longrightarrow> R st (st\<lparr>f4cache := Some c'\<rparr>)"
    and pr: "\<And>st dep. R st (sfprint (Unresolved dep) st)"
    and fb: "\<And>dep paths provider d st. R st (outcome_state (finish_build X dep paths provider d st))"
  shows "R st (outcome_state (build_dep X n dep st))"
proof (induction n arbitrary: dep st)
  case 0
  show ?case using rf by simp
next
  case (Suc n)
  let ?paths = "dict_get (dep_paths st) dep"
  show ?case
  proof (cases "truthy ?paths")
    case False
    then show ?thesis using pr by (simp add: build_dep_Suc del: build_dep.simps)
  next
    case tp: True
    show ?thesis
    proof (cases "exists_on X st ?paths")
      case (Inl e)
      with tp show ?thesis using rf by (simp add: build_dep_Suc del: build_dep.simps)
    next
      case (Inr present)
      show ?thesis
      proof (cases "present \<and> \<not> (case os_map st dep of
                                 Some provider \<Rightarrow> name provider \<in> run_stages st
                               | None \<Rightarrow> False)")
        case True
        with tp Inr show ?thesis using rf by (simp add: build_dep_Suc del: build_dep.simps)
      next
        case nu: False
        show ?thesis
        proof (cases "os_map st dep")
          case None
          with tp Inr nu show ?thesis using rf by (simp add: build_dep_Suc del: build_dep.simps)
        next
          case (Some provider)
          have rt: "R st (outcome_state (build_takes X n provider (takes provider) (f4cache st = None) st))"
          proof (rule build_takes_rel[where R = R and X = X and n = n])
            show "\<And>a b c. R a b \<Longrightarrow> R b c \<Longrightarrow> R a c" by (rule tr)
            show "\<And>st. R st st" by (rule rf)
            show "\<And>st c c'. f4cache st = Some c \<Longrightarrow> R st (st\<lparr>f4cache := Some c'\<rparr>)"
              by (rule cu)
            show "\<And>dep st. R st (outcome_state (build_dep X n dep st))" by (rule Suc.IH)
          qed
          show ?thesis
          proof (cases "build_takes X n provider (takes provider) (f4cache st = None) st")
            case (Inl err)
            with tp Inr nu Some rt show ?thesis
              by (cases err) (auto simp add: build_dep_Suc simp del: build_dep.simps)
          next
            case bt: (Inr r)
            obtain d st1 where r: "r = (d, st1)" by (cases r)
            with bt rt have "R st st1" by simp
            moreover have "R st1 (outcome_state (finish_build X dep ?paths provider d st1))"
              by (rule fb)
            ultimately have "R st (outcome_state (finish_build X dep ?paths provider d st1))"
              using tr by blast
            with tp Inr nu Some bt r show ?thesis
              by (auto simp add: build_dep_Suc simp del: build_dep.simps)
          qed
        qed
      qed
    qed
  qed
qed

lemma check_products_frame:
  "\<exists>c. (case check_products X dep paths provider prods st of
          Inl (e, s) \<Rightarrow> s | Inr s \<Rightarrow> s) = st\<lparr>f4cache := c\<rparr> \<and>
        (f4cache st = None \<longrightarrow> c = None)"
proof (induction prods arbitrary: st)
  case Nil
  have "st = st\<lparr>f4cache := f4cache st\<rparr>" by simp
  then show ?case by (auto intro: exI[of _ "f4cache st"])
next
  case (Cons product rest)
  have same: "\<exists>c. st = st\<lparr>f4cache := c\<rparr> \<and> (f4cache st = None \<longrightarrow> c = None)"
    by (rule exI[of _ "f4cache st"]) simp
  let ?g = "(if io_spec product = Req
            then (case exists_on X st paths of
                    Inl e \<Rightarrow> Inl e
                  | Inr present \<Rightarrow>
                      if \<not> present
                      then Inl (DependencyNotProducedException dep (name provider))
                      else Inr ())
            else Inr ())"
  show ?case
  proof (cases ?g)
    case (Inl e)
    then have "check_products X dep paths provider (product # rest) st = Inl (e, st)" by simp
    with same show ?thesis by simp
  next
    case g: (Inr u)
    show ?thesis
    proof (cases "dict_index (dep_paths st) (io_name product)")
      case (Inl e)
      with g have "check_products X dep paths provider (product # rest) st = Inl (e, st)" by simp
      with same show ?thesis by simp
    next
      case ip: (Inr prod_paths)
      show ?thesis
      proof (cases "prod_paths \<noteq> PNone")
        case False
        with g ip have "check_products X dep paths provider (product # rest) st =
                        check_products X dep paths provider rest st" by simp
        with Cons.IH[of st] show ?thesis by simp
      next
        case nn: True
        show ?thesis
        proof (cases "exists_on X st paths")
          case (Inl e)
          with g ip nn have "check_products X dep paths provider (product # rest) st = Inl (e, st)"
            by simp
          with same show ?thesis by simp
        next
          case ex: (Inr present)
          show ?thesis
          proof (cases "f4cache st")
            case None
            with g ip nn ex have "check_products X dep paths provider (product # rest) st =
                        check_products X dep paths provider rest st" by simp
            with Cons.IH[of st] show ?thesis by simp
          next
            case (Some c)
            show ?thesis
            proof (cases present)
              case False
              with g ip nn ex Some have "check_products X dep paths provider (product # rest) st =
                        check_products X dep paths provider rest st" by simp
              with Cons.IH[of st] show ?thesis by simp
            next
              case True
              let ?st1 = "st\<lparr>f4cache := Some (cache_deps X prod_paths (storage st) c)\<rparr>"
              from g ip nn ex Some True
              have e: "check_products X dep paths provider (product # rest) st =
                        check_products X dep paths provider rest ?st1" by simp
              from Cons.IH[of ?st1] obtain c' where
                "(case check_products X dep paths provider rest ?st1 of
                    Inl (e, s) \<Rightarrow> s | Inr s \<Rightarrow> s) = ?st1\<lparr>f4cache := c'\<rparr>" by blast
              then have "(case check_products X dep paths provider rest ?st1 of
                    Inl (e, s) \<Rightarrow> s | Inr s \<Rightarrow> s) = st\<lparr>f4cache := c'\<rparr>" by simp
              with e Some show ?thesis by auto
            qed
          qed
        qed
      qed
    qed
  qed
qed

lemma exec_frame_refl: "exec_frame a a"
  by (simp add: exec_frame_def)

lemma exec_frame_trans:
  assumes ab: "exec_frame a b" and bc: "exec_frame b c"
  shows "exec_frame a c"
proof -
  from ab have a1: "os_map b = os_map a" "dep_paths b = dep_paths a" "deps_rebuilds b = deps_rebuilds a"
     "value_overrides b = value_overrides a" "stages_checked b = stages_checked a"
     "skip_dep_warnings b = skip_dep_warnings a" "run_stages b \<subseteq> run_stages a"
     "f4cache a = None \<longrightarrow> f4cache b = None"
    unfolding exec_frame_def by blast+
  from bc have b1: "os_map c = os_map b" "dep_paths c = dep_paths b" "deps_rebuilds c = deps_rebuilds b"
     "value_overrides c = value_overrides b" "stages_checked c = stages_checked b"
     "skip_dep_warnings c = skip_dep_warnings b" "run_stages c \<subseteq> run_stages b"
     "f4cache b = None \<longrightarrow> f4cache c = None"
    unfolding exec_frame_def by blast+
  from ab obtain e1 where e1: "out b = out a @ e1" unfolding exec_frame_def by blast
  from bc obtain e2 where e2: "out c = out b @ e2" unfolding exec_frame_def by blast
  have "out c = out a @ (e1 @ e2)" by (simp add: e1 e2)
  then have o: "\<exists>evs. out c = out a @ evs" by blast
  have eqs: "os_map c = os_map a" "dep_paths c = dep_paths a" "deps_rebuilds c = deps_rebuilds a"
     "value_overrides c = value_overrides a" "stages_checked c = stages_checked a"
     "skip_dep_warnings c = skip_dep_warnings a"
    by (simp_all only: a1 b1)
  have sub: "run_stages c \<subseteq> run_stages a" using a1(7) b1(7) by blast
  have ca: "f4cache a = None \<longrightarrow> f4cache c = None" using a1(8) b1(8) by blast
  show ?thesis
    unfolding exec_frame_def
    by (intro conjI) (rule eqs sub ca o)+
qed

lemma check_products_exec_frame:
  "exec_frame st (case check_products X dep paths provider prods st of
                    Inl (e, s) \<Rightarrow> s | Inr s \<Rightarrow> s)"
  using check_products_frame[of X dep paths provider prods st]
  by (elim exE conjE) (simp add: exec_frame_def)

lemma finish_build_frame:
  "exec_frame st (outcome_state (finish_build X dep paths provider d st))"
proof (cases "(if \<not> d then exists_on X st paths else Inr False)")
  case (Inl e)
  then show ?thesis by (simp add: finish_build_def exec_frame_def)
next
  case (Inr skip)
  show ?thesis
  proof (cases skip)
    case True
    with Inr show ?thesis by (simp add: finish_build_def exec_frame_def sfprint_def)
  next
    case False
    let ?st1 = "sfprint (Exec (name provider)) st"
    show ?thesis
    proof (cases "module_exec X provider (config_mod_runctx X provider st) (storage st)")
      case (Inl e)
      with Inr False show ?thesis
        by (simp add: finish_build_def exec_frame_def sfprint_def Let_def)
    next
      case ex: (Inr w)
      let ?st2 = "?st1\<lparr>storage := w, run_stages := run_stages ?st1 - {name provider}\<rparr>"
      let ?r = "check_products X dep paths provider (produces provider) ?st2"
      have f2: "exec_frame st ?st2" by (auto simp: exec_frame_def sfprint_def)
      have f3: "exec_frame ?st2 (case ?r of Inl (e, s) \<Rightarrow> s | Inr s \<Rightarrow> s)"
        by (rule check_products_exec_frame)
      have "outcome_state (finish_build X dep paths provider d st) =
              (case ?r of Inl (e, s) \<Rightarrow> s | Inr s \<Rightarrow> s)"
        using Inr False ex by (cases ?r) (auto simp: finish_build_def Let_def)
      with exec_frame_trans[OF f2 f3] show ?thesis by simp
    qed
  qed
qed

lemma build_dep_frame: "exec_frame st (outcome_state (build_dep X n dep st))"
proof (rule build_dep_rel[where R = exec_frame and X = X])
  show "\<And>a b c. exec_frame a b \<Longrightarrow> exec_frame b c \<Longrightarrow> exec_frame a c" by (rule exec_frame_trans)
  show "\<And>st. exec_frame st st" by (rule exec_frame_refl)
  show "\<And>st c c'. f4cache st = Some c \<Longrightarrow> exec_frame st (st\<lparr>f4cache := Some c'\<rparr>)"
    by (simp add: exec_frame_def)
  show "\<And>st dep. exec_frame st (sfprint (Unresolved dep) st)"
    by (simp add: exec_frame_def sfprint_def)
  show "\<And>dep paths provider d st. exec_frame st (outcome_state (finish_build X dep paths provider d st))"
    by (rule finish_build_frame)
qed

lemma executed_sfprint:
  "executed (sfprint ev st) = executed st @ (case ev of Exec s \<Rightarrow> [s] | _ \<Rightarrow> [])"
  by (simp add: executed_def sfprint_def)

lemma executed_out: "out a = out b \<Longrightarrow> executed a = executed b"
  by (simp add: executed_def)

lemma cache_outputs_ok:
  "\<forall>v \<in> set vs. v = PNone \<or> str_or_list v \<Longrightarrow> \<exists>c. cache_outputs X vs st = Inr (st\<lparr>f4cache := c\<rparr>)"
proof (induction vs arbitrary: st)
  case Nil
  have "st = st\<lparr>f4cache := f4cache st\<rparr>" by simp
  then show ?case by (auto intro: exI[of _ "f4cache st"])
next
  case (Cons v vs)
  from Cons.prems have r: "\<forall>v \<in> set vs. v = PNone \<or> str_or_list v" by simp
  show ?case
  proof (cases "v = PNone")
    case True
    with Cons.IH[OF r, of st] show ?thesis by simp
  next
    case nn: False
    with Cons.prems have "str_or_list v" by simp
    from req_exists_paths(1)[OF this] obtain present where
      p: "exists_on X st v = Inr present" unfolding exists_on_def by blast
    show ?thesis
    proof (cases "f4cache st")
      case None
      with nn p Cons.IH[OF r, of st] show ?thesis by simp
    next
      case (Some c)
      show ?thesis
      proof (cases present)
        case False
        with nn p Some Cons.IH[OF r, of st] show ?thesis by simp
      next
        case True
        let ?st1 = "st\<lparr>f4cache := Some (cache_deps X v (storage st) c)\<rparr>"
        from Cons.IH[OF r, of ?st1] obtain c' where
          "cache_outputs X vs ?st1 = Inr (?st1\<lparr>f4cache := c'\<rparr>)" by blast
        then have "cache_outputs X vs ?st1 = Inr (st\<lparr>f4cache := c'\<rparr>)" by simp
        with nn p Some True show ?thesis by auto
      qed
    qed
  qed
qed

lemma mark_missing_outputs_ok:
  "\<forall>v \<in> snd ` set outs. v = PNone \<or> str_or_list v \<Longrightarrow>
   \<exists>rs. mark_missing_outputs X provider outs st = Inr (st\<lparr>run_stages := rs\<rparr>)"
proof (induction outs arbitrary: st)
  case Nil
  have "st = st\<lparr>run_stages := run_stages st\<rparr>" by simp
  then show ?case by (auto intro: exI[of _ "run_stages st"])
next
  case (Cons kv outs)
  obtain k v where kv: "kv = (k, v)" by (cases kv)
  from Cons.prems have r: "\<forall>v \<in> snd ` set outs. v = PNone \<or> str_or_list v" by simp
  show ?case
  proof (cases "v = PNone")
    case True
    with kv Cons.IH[OF r, of st] show ?thesis by simp
  next
    case nn: False
    with Cons.prems kv have "str_or_list v" by simp
    from req_exists_paths(1)[OF this] obtain present where
      p: "exists_on X st v = Inr present" unfolding exists_on_def by blast
    show ?thesis
    proof (cases present)
      case True
      with kv nn p Cons.IH[OF r, of st] show ?thesis by simp
    next
      case False
      let ?st1 = "st\<lparr>run_stages := insert (name provider) (run_stages st)\<rparr>"
      from Cons.IH[OF r, of ?st1] obtain rs where
        "mark_missing_outputs X provider outs ?st1 = Inr (?st1\<lparr>run_stages := rs\<rparr>)" by blast
      then have "mark_missing_outputs X provider outs ?st1 = Inr (st\<lparr>run_stages := rs\<rparr>)" by simp
      with kv nn p False show ?thesis by auto
    qed
  qed
qed

lemma resolve_outputs_unfold:
  assumes "module_map X provider (config_mod_runctx X provider st) (storage st) = Inr outputs"
    and "\<forall>v \<in> snd ` set outputs. v = PNone \<or> str_or_list v"
  shows "\<exists>st3. resolve_outputs X provider st =
                  verify_outputs X provider outputs (produces provider) st3 \<and>
               os_map st3 = os_map st \<and> out st3 = out st"
proof -
  from assms(2) have "\<forall>v \<in> set (map snd outputs). v = PNone \<or> str_or_list v" by simp
  from cache_outputs_ok[OF this, of X st] obtain c where
    c: "cache_outputs X (map snd outputs) st = Inr (st\<lparr>f4cache := c\<rparr>)" by blast
  let ?st2 = "(st\<lparr>f4cache := c\<rparr>)\<lparr>stages_checked := insert (name provider) (stages_checked (st\<lparr>f4cache := c\<rparr>)),
                  dep_paths := dep_paths (st\<lparr>f4cache := c\<rparr>) ++ map_of outputs\<rparr>"
  from mark_missing_outputs_ok[OF assms(2), of X provider ?st2] obtain rs where
    m: "mark_missing_outputs X provider outputs ?st2 = Inr (?st2\<lparr>run_stages := rs\<rparr>)" by blast
  have "resolve_outputs X provider st =
          verify_outputs X provider outputs (produces provider) (?st2\<lparr>run_stages := rs\<rparr>)"
    using assms(1) c m by (simp add: resolve_outputs_def Let_def)
  moreover have "os_map (?st2\<lparr>run_stages := rs\<rparr>) = os_map st" "out (?st2\<lparr>run_stages := rs\<rparr>) = out st"
    by simp_all
  ultimately show ?thesis by blast
qed

lemma verify_outputs_shrink:
  "verify_outputs X provider outputs outs st = Inr st' \<Longrightarrow>
   out st' = out st \<and> (\<forall>m. os_map st m = None \<longrightarrow> os_map st' m = None)"
proof (induction outs arbitrary: st)
  case Nil
  then show ?case by simp
next
  case (Cons oo rest)
  note a = Cons.prems[unfolded verify_outputs_step]
  show ?case
  proof (cases "io_name oo \<notin> fst ` set outputs")
    case True
    with a obtain owner where
      "verify_outputs X provider outputs rest (st\<lparr>os_map := (os_map st)(io_name oo := None)\<rparr>) = Inr st'"
      by (auto split: if_splits option.splits)
    from Cons.IH[OF this] show ?thesis by simp
  next
    case False
    with a have "verify_outputs X provider outputs rest
             (if dict_get (map_of outputs) (io_name oo) \<noteq> PNone
              then st\<lparr>value_overrides :=
                        (value_overrides st)
                          (name provider :=
                             (value_overrides st (name provider))
                               (dep_value_str (io_name oo) \<mapsto> dict_get (map_of outputs) (io_name oo)))\<rparr>
              else st) = Inr st'" by simp
    from Cons.IH[OF this] show ?thesis by (simp split: if_splits)
  qed
qed

lemma resolve_outputs_shrink:
  assumes "resolve_outputs X provider st = Inr st'"
  shows "out st' = out st \<and> (\<forall>m. os_map st m = None \<longrightarrow> os_map st' m = None)"
proof -
  from assms obtain outputs where
    m: "module_map X provider (config_mod_runctx X provider st) (storage st) = Inr outputs"
    by (cases "module_map X provider (config_mod_runctx X provider st) (storage st)")
       (simp_all add: resolve_outputs_def)
  from assms m obtain st1 where c: "cache_outputs X (map snd outputs) st = Inr st1"
    by (cases "cache_outputs X (map snd outputs) st") (simp_all add: resolve_outputs_def)
  let ?st2 = "st1\<lparr>stages_checked := insert (name provider) (stages_checked st1),
                  dep_paths := dep_paths st1 ++ map_of outputs\<rparr>"
  from assms m c obtain st3 where mm: "mark_missing_outputs X provider outputs ?st2 = Inr st3"
    by (cases "mark_missing_outputs X provider outputs ?st2")
       (simp_all add: resolve_outputs_def Let_def)
  from assms m c mm have v: "verify_outputs X provider outputs (produces provider) st3 = Inr st'"
    by (simp add: resolve_outputs_def Let_def)
  from cache_outputs_frame[OF c] obtain c' where f1: "st1 = st\<lparr>f4cache := c'\<rparr>" by blast
  from mark_missing_outputs_frame[OF mm]
  have f2: "st3 = ?st2 \<or> st3 = ?st2\<lparr>run_stages := insert (name provider) (run_stages ?st2)\<rparr>" .
  have "os_map st3 = os_map st \<and> out st3 = out st" using f1 f2 by auto
  with verify_outputs_shrink[OF v] show ?thesis by simp
qed

lemma process_take_shrink:
  assumes "process_take X provider tk st = Inr v"
  shows "executed (verdict_state v) = executed st \<and> os_map (verdict_state v) = os_map st"
proof -
  let ?paths = "dict_get (dep_paths st) (io_name tk)"
  let ?st1 = "st\<lparr>value_overrides :=
                     (value_overrides st)
                       (name provider :=
                          (value_overrides st (name provider))
                            (dep_value_str (io_name tk) \<mapsto> ?paths))\<rparr>"
  show ?thesis
  proof (cases "\<not> truthy ?paths \<and> io_spec tk = Req")
    case True
    with assms show ?thesis by (auto simp: process_take_def Let_def sfprint_def executed_def)
  next
    case False
    with assms obtain d where d: "will_differ X st provider tk ?paths = Inr d"
      by (cases "will_differ X st provider tk ?paths") (auto simp: process_take_def Let_def)
    show ?thesis
    proof (cases d)
      case True
      with assms False d obtain st2 where c: "cause_rebuild ?st1 provider tk = Inr st2" "v = Proceed st2"
        by (cases "cause_rebuild ?st1 provider tk") (auto simp: process_take_def Let_def)
      from c(1) have "executed st2 = executed st \<and> os_map st2 = os_map st"
        by (auto simp: cause_rebuild_def Let_def sfprint_def executed_def split: option.splits if_splits)
      with c(2) show ?thesis by simp
    next
      case nd: False
      with assms False d have "v = Proceed ?st1" by (auto simp: process_take_def Let_def)
      then show ?thesis by (simp add: executed_def)
    qed
  qed
qed

lemma resolve_dependencies_shrink:
  "resolve_dependencies X n dep st = Inr st' \<Longrightarrow>
   executed st' = executed st \<and> (\<forall>m. os_map st m = None \<longrightarrow> os_map st' m = None)"
proof (rule resolve_dependencies_rel[where
        R = "\<lambda>a b. executed b = executed a \<and> (\<forall>m. os_map a m = None \<longrightarrow> os_map b m = None)"
        and X = X and n = n and dep = dep])
  show "\<And>st dep. executed (init_dep_status dep st) = executed st \<and>
          (\<forall>m. os_map st m = None \<longrightarrow> os_map (init_dep_status dep st) m = None)"
    by (simp add: init_dep_status_def executed_def)
  show "\<And>provider tk st v. process_take X provider tk st = Inr v \<Longrightarrow>
          executed (verdict_state v) = executed st \<and>
          (\<forall>m. os_map st m = None \<longrightarrow> os_map (verdict_state v) m = None)"
    using process_take_shrink by fastforce
  show "\<And>provider st st'. resolve_outputs X provider st = Inr st' \<Longrightarrow>
          executed st' = executed st \<and> (\<forall>m. os_map st m = None \<longrightarrow> os_map st' m = None)"
    using resolve_outputs_shrink executed_out by blast
qed auto


subsection \<open>Execution: skipping a rebuild\<close>

lemma build_takes_mono:
  "build_takes X n provider tks True st = Inr (d, s) \<Longrightarrow> d"
proof (induction tks arbitrary: st)
  case Nil
  then show ?case by simp
next
  case (Cons p_dep rest)
  from Cons.prems obtain built st1 where b: "build_dep X n (io_name p_dep) st = Inr (built, st1)"
    by (cases "build_dep X n (io_name p_dep) st") auto
  show ?case
  proof (cases built)
    case False
    with Cons.prems b have "build_takes X n provider rest True st1 = Inr (d, s)"
      by (simp split: if_splits)
    then show ?thesis by (rule Cons.IH)
  next
    case True
    show ?thesis
    proof (cases "f4cache st1")
      case None
      with Cons.prems b True have "build_takes X n provider rest True st1 = Inr (d, s)" by simp
      then show ?thesis by (rule Cons.IH)
    next
      case (Some c)
      from Cons.prems b True Some obtain p_paths where
        ip: "dict_index (dep_paths st1) (io_name p_dep) = Inr p_paths"
        by (cases "dict_index (dep_paths st1) (io_name p_dep)") auto
      from Cons.prems b True Some ip obtain differs c' where
        up: "update_dep_statuses X (storage st1) p_paths (name provider) c = Inr (differs, c')"
        by (cases "update_dep_statuses X (storage st1) p_paths (name provider) c") auto
      from Cons.prems b True Some ip up
      have "build_takes X n provider rest True (st1\<lparr>f4cache := Some c'\<rparr>) = Inr (d, s)" by simp
      then show ?thesis by (rule Cons.IH)
    qed
  qed
qed

lemma build_takes_differs:
  assumes "build_dep X n (io_name p_dep) st = Inr (True, sa)"
    and "f4cache sa = Some c"
    and "dict_index (dep_paths sa) (io_name p_dep) = Inr v"
    and "update_dep_statuses X (storage sa) v (name provider) c = Inr (True, c')"
    and "build_takes X n provider (p_dep # rest) acc st = Inr (d, s)"
  shows d
proof -
  from assms have "build_takes X n provider rest True (sa\<lparr>f4cache := Some c'\<rparr>) = Inr (d, s)"
    by simp
  then show ?thesis by (rule build_takes_mono)
qed

lemma build_dep_skip:
  assumes "truthy (dict_get (dep_paths st) dep)"
    and "exists_on X st (dict_get (dep_paths st) dep) = Inr present"
    and "os_map st dep = Some provider"
    and "\<not> present \<or> name provider \<in> run_stages st"
    and "build_takes X n provider (takes provider) (f4cache st = None) st = Inr (False, st1)"
    and "exists_on X st1 (dict_get (dep_paths st) dep) = Inr True"
  shows "build_dep X (Suc n) dep st = Inr (True, sfprint (SkipRebuild dep) st1)"
  using assms by (auto simp: Let_def finish_build_def)

text \<open>
  Claim C1. Let \<^verbatim>\<open>_build_dep\<close> be called for a resolved dependency whose stage is in
  the run set or whose path does not exist. If the loop over the inputs of the stage
  returns with the accumulator false, that is, every input was built and none of the
  update-and-compare calls reported a difference, and the path of the dependency exists,
  then the call returns success, its only effect after the loop is the skip diagnostic,
  and the module of the stage is not executed. The accumulator can only be false with
  caching enabled: it starts true without a cache, never falls back to false, and an
  input whose update reports a difference makes it true.
\<close>

theorem skip_rebuild_when_inputs_unchanged:
  "(truthy (dict_get (dep_paths st) dep) \<and>
      exists_on X st (dict_get (dep_paths st) dep) = Inr present \<and>
      os_map st dep = Some provider \<and>
      (\<not> present \<or> name provider \<in> run_stages st) \<and>
      build_takes X n provider (takes provider) (f4cache st = None) st = Inr (False, st1) \<and>
      exists_on X st1 (dict_get (dep_paths st) dep) = Inr True \<longrightarrow>
      build_dep X (Suc n) dep st = Inr (True, sfprint (SkipRebuild dep) st1) \<and>
      out (sfprint (SkipRebuild dep) st1) = out st1 @ [SkipRebuild dep] \<and>
      executed (sfprint (SkipRebuild dep) st1) = executed st1 \<and>
      f4cache st \<noteq> None) \<and>
   (build_takes X n provider tks True sa = Inr (d, sb) \<longrightarrow> d) \<and>
   (build_dep X n (io_name p_dep) sc = Inr (True, sd) \<and>
      f4cache sd = Some c \<and>
      dict_index (dep_paths sd) (io_name p_dep) = Inr v \<and>
      update_dep_statuses X (storage sd) v (name provider) c = Inr (True, c') \<and>
      build_takes X n provider (p_dep # rest) acc sc = Inr (d', se) \<longrightarrow> d')"
proof (intro conjI impI)
  assume h: "truthy (dict_get (dep_paths st) dep) \<and>
      exists_on X st (dict_get (dep_paths st) dep) = Inr present \<and>
      os_map st dep = Some provider \<and>
      (\<not> present \<or> name provider \<in> run_stages st) \<and>
      build_takes X n provider (takes provider) (f4cache st = None) st = Inr (False, st1) \<and>
      exists_on X st1 (dict_get (dep_paths st) dep) = Inr True"
  then show "build_dep X (Suc n) dep st = Inr (True, sfprint (SkipRebuild dep) st1)"
    using build_dep_skip[of st dep X present provider n st1] by blast
  show "out (sfprint (SkipRebuild dep) st1) = out st1 @ [SkipRebuild dep]"
    by (simp add: sfprint_def)
  show "executed (sfprint (SkipRebuild dep) st1) = executed st1"
    by (simp add: executed_sfprint)
  show "f4cache st \<noteq> None"
  proof
    assume "f4cache st = None"
    with h have "build_takes X n provider (takes provider) True st = Inr (False, st1)" by simp
    from build_takes_mono[OF this] show False .
  qed
next
  assume "build_takes X n provider tks True sa = Inr (d, sb)"
  then show d by (rule build_takes_mono)
next
  assume "build_dep X n (io_name p_dep) sc = Inr (True, sd) \<and>
      f4cache sd = Some c \<and>
      dict_index (dep_paths sd) (io_name p_dep) = Inr v \<and>
      update_dep_statuses X (storage sd) v (name provider) c = Inr (True, c') \<and>
      build_takes X n provider (p_dep # rest) acc sc = Inr (d', se)"
  then show d' using build_takes_differs[of X n p_dep sc sd c v provider c' rest acc d' se] by blast
qed

lemmas abdefs = env_ab_def example_env_def stale_b_def planned_ab_def blank_flow_def
  stage_a_def stage_b_def exists_on_def dict_get_def dict_index_def
  oracle_update_def oracle_get_status_def sfprint_def

lemma ex_x:
  "build_dep env_ab (Suc 0) ''x''
     (stale_b [''x.out'' \<mapsto> ''A'', ''bitstream.out'' \<mapsto> ''B''] cache) =
   Inr (True, stale_b [''x.out'' \<mapsto> ''A'', ''bitstream.out'' \<mapsto> ''B''] cache)"
  apply (simp add: build_dep_Suc del: build_dep.simps)
  apply (simp add: abdefs)
  done

lemma ex_takes_same:
  "build_takes env_ab (Suc 0) stage_b (takes stage_b) False
     (stale_b [''x.out'' \<mapsto> ''A'', ''bitstream.out'' \<mapsto> ''B''] (Some [(''x.out'', ''B'') \<mapsto> ''A''])) =
   Inr (False, stale_b [''x.out'' \<mapsto> ''A'', ''bitstream.out'' \<mapsto> ''B''] (Some [(''x.out'', ''B'') \<mapsto> ''A'']))"
  apply (simp add: stage_b_def[THEN arg_cong[where f = takes]] ex_x del: build_dep.simps)
  apply (simp add: abdefs)
  done

lemma ex_takes_nocache:
  "build_takes env_ab (Suc 0) stage_b (takes stage_b) True
     (stale_b [''x.out'' \<mapsto> ''A'', ''bitstream.out'' \<mapsto> ''B''] None) =
   Inr (True, stale_b [''x.out'' \<mapsto> ''A'', ''bitstream.out'' \<mapsto> ''B''] None)"
  apply (simp add: stage_b_def[THEN arg_cong[where f = takes]] ex_x del: build_dep.simps)
  apply (simp add: abdefs)
  done

lemma ex_takes_changed:
  "build_takes env_ab (Suc 0) stage_b [\<lparr>io_name = ''x'', io_spec = Req\<rparr>] False
     (stale_b [''x.out'' \<mapsto> ''A'', ''bitstream.out'' \<mapsto> ''B''] (Some Map.empty)) =
   Inr (True, (stale_b [''x.out'' \<mapsto> ''A'', ''bitstream.out'' \<mapsto> ''B''] (Some Map.empty))
                \<lparr>f4cache := Some [(''x.out'', ''B'') \<mapsto> ''A'']\<rparr>)"
  apply (simp add: ex_x del: build_dep.simps)
  apply (simp add: abdefs)
  done

theorem skip_rebuild_when_inputs_unchanged_witness:
  "build_dep env_ab (Suc (Suc 0)) ''bitstream''
     (stale_b [''x.out'' \<mapsto> ''A'', ''bitstream.out'' \<mapsto> ''B''] (Some [(''x.out'', ''B'') \<mapsto> ''A''])) =
   Inr (True, sfprint (SkipRebuild ''bitstream'')
                (stale_b [''x.out'' \<mapsto> ''A'', ''bitstream.out'' \<mapsto> ''B'']
                   (Some [(''x.out'', ''B'') \<mapsto> ''A'']))) \<and>
   executed (sfprint (SkipRebuild ''bitstream'')
                (stale_b [''x.out'' \<mapsto> ''A'', ''bitstream.out'' \<mapsto> ''B'']
                   (Some [(''x.out'', ''B'') \<mapsto> ''A'']))) = []"
proof -
  let ?W = "[''x.out'' \<mapsto> ''A'', ''bitstream.out'' \<mapsto> ''B'']"
  let ?C = "[(''x.out'', ''B'') \<mapsto> ''A'']"
  let ?st = "stale_b ?W (Some ?C)"
  let ?sn = "stale_b ?W None"
  let ?sc = "stale_b ?W (Some Map.empty)"
  let ?tk = "\<lparr>io_name = ''x'', io_spec = Req\<rparr>"
  note t = skip_rebuild_when_inputs_unchanged
    [where X = env_ab and st = ?st and dep = "''bitstream''" and present = True
       and provider = stage_b and n = "Suc 0" and ?st1.0 = ?st
       and tks = "takes stage_b" and sa = ?sn and d = True and sb = ?sn
       and p_dep = ?tk and sc = ?sc and sd = ?sc and c = Map.empty and v = "PStr ''x.out''"
       and c' = ?C and rest = "[]" and acc = False and d' = True
       and se = "?sc\<lparr>f4cache := Some ?C\<rparr>"]
  have h1: "truthy (dict_get (dep_paths ?st) ''bitstream'') \<and>
      exists_on env_ab ?st (dict_get (dep_paths ?st) ''bitstream'') = Inr True \<and>
      os_map ?st ''bitstream'' = Some stage_b \<and>
      (\<not> True \<or> name stage_b \<in> run_stages ?st) \<and>
      build_takes env_ab (Suc 0) stage_b (takes stage_b) (f4cache ?st = None) ?st = Inr (False, ?st) \<and>
      exists_on env_ab ?st (dict_get (dep_paths ?st) ''bitstream'') = Inr True"
  proof (intro conjI)
    have "(f4cache ?st = None) = False" by (simp add: abdefs)
    then show "build_takes env_ab (Suc 0) stage_b (takes stage_b) (f4cache ?st = None) ?st = Inr (False, ?st)"
      by (simp only: ex_takes_same)
  qed (simp_all add: abdefs)
  have h2: "build_takes env_ab (Suc 0) stage_b (takes stage_b) True ?sn = Inr (True, ?sn)"
    by (rule ex_takes_nocache)
  have h3: "build_dep env_ab (Suc 0) (io_name ?tk) ?sc = Inr (True, ?sc) \<and>
      f4cache ?sc = Some Map.empty \<and>
      dict_index (dep_paths ?sc) (io_name ?tk) = Inr (PStr ''x.out'') \<and>
      update_dep_statuses env_ab (storage ?sc) (PStr ''x.out'') (name stage_b) Map.empty = Inr (True, ?C) \<and>
      build_takes env_ab (Suc 0) stage_b (?tk # []) False ?sc = Inr (True, ?sc\<lparr>f4cache := Some ?C\<rparr>)"
  proof (intro conjI)
    show "build_dep env_ab (Suc 0) (io_name ?tk) ?sc = Inr (True, ?sc)" using ex_x by simp
    show "build_takes env_ab (Suc 0) stage_b (?tk # []) False ?sc = Inr (True, ?sc\<lparr>f4cache := Some ?C\<rparr>)"
      by (rule ex_takes_changed)
  qed (simp_all add: abdefs)
  note t[THEN conjunct2, THEN conjunct1, rule_format, OF h2]
    t[THEN conjunct2, THEN conjunct2, rule_format, OF h3]
  from t[THEN conjunct1, rule_format, OF h1]
  have r: "build_dep env_ab (Suc (Suc 0)) ''bitstream'' ?st =
             Inr (True, sfprint (SkipRebuild ''bitstream'') ?st)"
          "executed (sfprint (SkipRebuild ''bitstream'') ?st) = executed ?st"
    by simp_all
  have "executed ?st = []" by (simp add: abdefs executed_def)
  with r show ?thesis by simp
qed

subsection \<open>Execution: the check of the products\<close>

lemmas ddefs = env_d_def example_env_def blank_flow_def stage_d_def predict_ab_def run_only_b_def
  exists_on_def dict_get_def dict_index_def sfprint_def

lemma ex_d_init:
  "flow_init env_d (Suc 0) ''b'' None (\<lambda>s. Map.empty) Map.empty = Inr planned_d"
  apply (simp add: flow_init_def map_outputs_to_stages_def resolve_dependencies_Suc
              del: resolve_dependencies.simps)
  apply (simp add: ddefs init_dep_status_def)
  apply (simp add: ddefs planned_d_def resolve_outputs_def config_mod_runctx_def Let_def)
  done

lemma ex_d_exec:
  "execute env_d (Suc 0) ''b'' planned_d =
     Inr (planned_d\<lparr>run_stages := {}, storage := [''b.out'' \<mapsto> ''D''],
                    out := [Exec ''D'', TargetReport ''b'' (PStr ''b.out'')]\<rparr>)"
  apply (simp add: execute_def build_dep_Suc del: build_dep.simps)
  apply (simp add: ddefs planned_d_def)
  apply (simp add: ddefs planned_d_def finish_build_def config_mod_runctx_def Let_def)
  done

text \<open>
  Claim C5. After the module ran, the loop over the products tests, for every Required
  product, the existence of the paths of the dependency being built and not of the
  product's own path. Here \<open>stage_d\<close> declares \<open>a\<close> and \<open>b\<close> as Required and its module
  writes only \<open>b.out\<close>: building \<open>b\<close> executes the stage and succeeds, although the
  Required output \<open>a\<close> is resolved to \<open>a.out\<close>, which does not exist afterwards.
\<close>

theorem required_output_not_checked:
  "flow_init env_d (Suc 0) ''b'' None (\<lambda>s. Map.empty) Map.empty = Inr planned_d \<and>
   execute env_d (Suc 0) ''b'' planned_d =
     Inr (planned_d\<lparr>run_stages := {}, storage := [''b.out'' \<mapsto> ''D''],
                    out := [Exec ''D'', TargetReport ''b'' (PStr ''b.out'')]\<rparr>) \<and>
   produces stage_d = [\<lparr>io_name = ''a'', io_spec = Req\<rparr>, \<lparr>io_name = ''b'', io_spec = Req\<rparr>] \<and>
   dep_paths planned_d ''a'' = Some (PStr ''a.out'') \<and>
   req_exists (path_exists env_d [''b.out'' \<mapsto> ''D'']) (PStr ''a.out'') = Inr False"
  using ex_d_init ex_d_exec
  by (simp add: stage_d_def planned_d_def env_d_def example_env_def)

subsection \<open>Execution: recording the inputs\<close>

lemma update_dep_statuses_head:
  "update_dep_statuses X w (PList (p # ps)) consumer c = update_dep_statuses X w p consumer c"
  "update_dep_statuses X w (PDict ((k, p) # kvs)) consumer c = update_dep_statuses X w p consumer c"
  by simp_all

text \<open>
  Claim C9. \<^verbatim>\<open>update_dep_statuses\<close> returns from inside its loops, so for a list or a
  dict only the first element is recorded and compared. With \<open>x.out\<close> recorded for the
  consumer and \<open>y.out\<close> not, the update of the list of both reports no difference and
  records nothing for \<open>y.out\<close>, while \<^verbatim>\<open>dep_differ\<close> on the same list reports a
  difference; the same holds for a dict, and the empty list is a fatal error.
\<close>

theorem update_dep_statuses_first_element_only:
  "update_dep_statuses env_ab [''x.out'' \<mapsto> ''A'', ''y.out'' \<mapsto> ''new'']
     (PList [PStr ''x.out'', PStr ''y.out'']) ''B'' [(''x.out'', ''B'') \<mapsto> ''A''] =
     Inr (False, [(''x.out'', ''B'') \<mapsto> ''A'']) \<and>
   dep_differ env_ab [''x.out'' \<mapsto> ''A'', ''y.out'' \<mapsto> ''new'']
     (PList [PStr ''x.out'', PStr ''y.out'']) ''B'' [(''x.out'', ''B'') \<mapsto> ''A''] \<and>
   update_dep_statuses env_ab [''x.out'' \<mapsto> ''A'', ''y.out'' \<mapsto> ''new'']
     (PList [PStr ''y.out'']) ''B'' [(''x.out'', ''B'') \<mapsto> ''A''] =
     Inr (True, [(''x.out'', ''B'') \<mapsto> ''A'', (''y.out'', ''B'') \<mapsto> ''new'']) \<and>
   update_dep_statuses env_ab [''x.out'' \<mapsto> ''A'', ''y.out'' \<mapsto> ''new'']
     (PDict [(''k1'', PStr ''x.out''), (''k2'', PStr ''y.out'')]) ''B'' [(''x.out'', ''B'') \<mapsto> ''A''] =
     Inr (False, [(''x.out'', ''B'') \<mapsto> ''A'']) \<and>
   update_dep_statuses env_ab [''x.out'' \<mapsto> ''A'', ''y.out'' \<mapsto> ''new'']
     (PList []) ''B'' [(''x.out'', ''B'') \<mapsto> ''A''] = Inl FatalWrongPathsType"
  by (simp add: env_ab_def example_env_def oracle_update_def oracle_get_status_def)

subsection \<open>Planning: an unreachable stage\<close>

lemmas sdefs = env_s_def example_env_def blank_flow_def stage_s_def stage_s_rev_def predict_ab_def
  exists_on_def dict_get_def dict_index_def sfprint_def files_s_def

lemma ex_s_init:
  "flow_init (env_s stage_s) (Suc (Suc 0)) ''o'' (Some Map.empty) (\<lambda>s. Map.empty) files_s = Inr planned_s"
  apply (simp add: flow_init_def map_outputs_to_stages_def resolve_dependencies_Suc oracle_cache_deps_def
              del: resolve_dependencies.simps)
  apply (simp add: sdefs init_dep_status_def oracle_cache_deps_def resolve_dependencies_Suc
              del: resolve_dependencies.simps)
  apply (simp add: sdefs planned_s_def process_take_def will_differ_def flow_dep_will_differ_def
                   dep_will_differ_def oracle_get_status_def cause_rebuild_def init_dep_status_def Let_def)
  done

lemma ex_s_rev_init:
  "flow_init (env_s stage_s_rev) (Suc (Suc 0)) ''o'' (Some Map.empty) (\<lambda>s. Map.empty) files_s =
     Inr planned_s_rev"
  apply (simp add: flow_init_def map_outputs_to_stages_def resolve_dependencies_Suc oracle_cache_deps_def
              del: resolve_dependencies.simps)
  apply (simp add: sdefs init_dep_status_def oracle_cache_deps_def resolve_dependencies_Suc
              del: resolve_dependencies.simps)
  apply (simp add: sdefs planned_s_rev_def process_take_def will_differ_def flow_dep_will_differ_def
                   dep_will_differ_def oracle_get_status_def cause_rebuild_def init_dep_status_def Let_def)
  done

lemma planned_s_fields:
  "f4cache planned_s = Some Map.empty"
  "dep_paths planned_s = [''o'' \<mapsto> PStr ''o.given'', ''a'' \<mapsto> PStr ''a.src'']"
  "os_map planned_s = [''o'' \<mapsto> stage_s]"
  "run_stages planned_s = {''S''}"
  "storage planned_s = files_s"
  "out planned_s = [CausingRebuild ''a'' ''S'', Unreachable ''S'' ''b'']"
  by (simp_all add: planned_s_def)

lemma ex_s_a:
  "build_dep (env_s stage_s) (Suc 0) ''a'' planned_s = Inr (True, planned_s)"
  apply (simp add: build_dep_Suc del: build_dep.simps)
  apply (simp add: sdefs planned_s_fields)
  done

lemma ex_s_b:
  "dep_paths st ''b'' = None \<Longrightarrow>
   build_dep X (Suc 0) ''b'' st = Inr (False, sfprint (Unresolved ''b'') st)"
  by (simp add: build_dep_Suc dict_get_def del: build_dep.simps)

lemma ex_s_takes:
  "build_takes (env_s stage_s) (Suc 0) stage_s (takes stage_s) False planned_s =
     Inl (AssertionError,
          planned_s\<lparr>f4cache := Some [(''a.src'', ''S'') \<mapsto> ''v1''],
                     out := out planned_s @ [Unresolved ''b'']\<rparr>)"
proof -
  have u: "cache_update (env_s stage_s) Map.empty (storage planned_s) ''a.src'' (name stage_s)
            = (True, [(''a.src'', ''S'') \<mapsto> ''v1''])"
    by (simp add: sdefs planned_s_fields oracle_update_def oracle_get_status_def)
  have i: "dict_index (dep_paths planned_s) ''a'' = Inr (PStr ''a.src'')"
    by (simp add: planned_s_fields dict_index_def)
  let ?st1 = "planned_s\<lparr>f4cache := Some [(''a.src'', ''S'') \<mapsto> ''v1'']\<rparr>"
  have b: "build_dep (env_s stage_s) (Suc 0) ''b'' ?st1 = Inr (False, sfprint (Unresolved ''b'') ?st1)"
    by (rule ex_s_b) (simp add: planned_s_fields)
  have t: "takes stage_s = [\<lparr>io_name = ''a'', io_spec = Req\<rparr>, \<lparr>io_name = ''b'', io_spec = Req\<rparr>]"
    by (simp add: stage_s_def)
  show ?thesis
    unfolding t
    by (simp add: ex_s_a planned_s_fields(1,6) i u b sfprint_def del: build_dep.simps)
qed

lemma ex_s_exec:
  "execute (env_s stage_s) (Suc (Suc 0)) ''o'' planned_s =
     Inl (AssertionError,
          planned_s\<lparr>f4cache := Some [(''a.src'', ''S'') \<mapsto> ''v1''],
                     out := out planned_s @ [Unresolved ''b'']\<rparr>)"
proof -
  have e: "exists_on (env_s stage_s) planned_s (PStr ''o.given'') = Inr True"
    by (simp add: sdefs planned_s_fields)
  have c: "(f4cache planned_s = None) = False" by (simp add: planned_s_fields)
  have n: "name stage_s = ''S''" by (simp add: stage_s_def)
  show ?thesis
    by (simp add: execute_def build_dep_Suc planned_s_fields dict_get_def e c n ex_s_takes
             del: build_dep.simps)
qed

lemma ex_s_rev_exec:
  "execute (env_s stage_s_rev) (Suc (Suc 0)) ''o'' planned_s_rev =
     Inr (planned_s_rev\<lparr>f4cache := Some [(''o.given'', ''__target'') \<mapsto> ''v2''],
                        out := out planned_s_rev @ [TargetReport ''o'' (PStr ''o.given'')]\<rparr>)"
  apply (simp add: execute_def build_dep_Suc del: build_dep.simps)
  apply (simp add: sdefs planned_s_rev_def oracle_update_def oracle_get_status_def oracle_cache_deps_def)
  done

text \<open>
  Claim C3. The stage is added to the run set as soon as one of its inputs causes a
  rebuild, before a later Required input is found to be unmet. \<open>stage_s\<close> takes \<open>a\<close>, which
  causes a rebuild, and then \<open>b\<close>, which nothing provides: planning abandons the stage
  with the diagnostic, yet leaves it in the run set, and building its explicitly given
  output \<open>o\<close> then fails the assertion on Required inputs. With the inputs in the other
  order the stage stays out of the run set and the same build succeeds.
\<close>

theorem unreachable_stage_enters_run_set:
  "flow_init (env_s stage_s) (Suc (Suc 0)) ''o'' (Some Map.empty) (\<lambda>s. Map.empty) files_s =
     Inr planned_s \<and>
   takes stage_s = [\<lparr>io_name = ''a'', io_spec = Req\<rparr>, \<lparr>io_name = ''b'', io_spec = Req\<rparr>] \<and>
   dep_paths planned_s ''b'' = None \<and>
   ''S'' \<in> run_stages planned_s \<and>
   out planned_s = [CausingRebuild ''a'' ''S'', Unreachable ''S'' ''b''] \<and>
   execute (env_s stage_s) (Suc (Suc 0)) ''o'' planned_s =
     Inl (AssertionError,
          planned_s\<lparr>f4cache := Some [(''a.src'', ''S'') \<mapsto> ''v1''],
                     out := out planned_s @ [Unresolved ''b'']\<rparr>) \<and>
   flow_init (env_s stage_s_rev) (Suc (Suc 0)) ''o'' (Some Map.empty) (\<lambda>s. Map.empty) files_s =
     Inr planned_s_rev \<and>
   run_stages planned_s_rev = {} \<and>
   execute (env_s stage_s_rev) (Suc (Suc 0)) ''o'' planned_s_rev =
     Inr (planned_s_rev\<lparr>f4cache := Some [(''o.given'', ''__target'') \<mapsto> ''v2''],
                        out := out planned_s_rev @ [TargetReport ''o'' (PStr ''o.given'')]\<rparr>)"
  using ex_s_init ex_s_exec ex_s_rev_init ex_s_rev_exec
  by (simp add: planned_s_fields stage_s_def planned_s_rev_def)

subsection \<open>Two runs of an example flow with caching disabled\<close>

lemmas ab2defs = env_ab_def example_env_def stage_a_def stage_b_def predict_ab_def run_ab_def
  exists_on_def dict_get_def dict_index_def sfprint_def files_ab_def



lemma env_ab_path_exists: "path_exists env_ab w p = (w p \<noteq> None)"
  by (simp add: env_ab_def example_env_def)

lemma stage_names: "name stage_a = ''A''" "name stage_b = ''B''"
  by (simp_all add: stage_a_def stage_b_def)








lemma build_takes_frame:
  "exec_frame st (outcome_state (build_takes X n provider tks acc st))"
proof (rule build_takes_rel[where R = exec_frame and X = X and n = n])
  show "\<And>a b c. exec_frame a b \<Longrightarrow> exec_frame b c \<Longrightarrow> exec_frame a c" by (rule exec_frame_trans)
  show "\<And>st. exec_frame st st" by (rule exec_frame_refl)
  show "\<And>st c c'. f4cache st = Some c \<Longrightarrow> exec_frame st (st\<lparr>f4cache := Some c'\<rparr>)"
    by (simp add: exec_frame_def)
  show "\<And>dep st. exec_frame st (outcome_state (build_dep X n dep st))" by (rule build_dep_frame)
qed



subsection \<open>Execution of a flow with nothing left to do\<close>












subsection \<open>Planning: the verdict for each input\<close>

lemma plan_grows_refl: "plan_grows a a"
  by (simp add: plan_grows_def)

lemma plan_grows_trans:
  assumes ab: "plan_grows a b" and bc: "plan_grows b c"
  shows "plan_grows a c"
proof -
  from ab have a1: "run_stages a \<subseteq> run_stages b"
      "\<And>d k. deps_rebuilds a d = Some k \<Longrightarrow> \<exists>k'. deps_rebuilds b d = Some k' \<and> k \<le> k'"
      "f4cache a = None \<longrightarrow> f4cache b = None" "storage b = storage a" "executed b = executed a"
    unfolding plan_grows_def by blast+
  from bc have b1: "run_stages b \<subseteq> run_stages c"
      "\<And>d k. deps_rebuilds b d = Some k \<Longrightarrow> \<exists>k'. deps_rebuilds c d = Some k' \<and> k \<le> k'"
      "f4cache b = None \<longrightarrow> f4cache c = None" "storage c = storage b" "executed c = executed b"
    unfolding plan_grows_def by blast+
  have c: "\<forall>d k. deps_rebuilds a d = Some k \<longrightarrow> (\<exists>k'. deps_rebuilds c d = Some k' \<and> k \<le> k')"
  proof (intro allI impI)
    fix d k assume "deps_rebuilds a d = Some k"
    from a1(2)[OF this] obtain k1 where k1: "deps_rebuilds b d = Some k1" "k \<le> k1" by blast
    from b1(2)[OF k1(1)] obtain k2 where "deps_rebuilds c d = Some k2" "k1 \<le> k2" by blast
    with k1(2) show "\<exists>k'. deps_rebuilds c d = Some k' \<and> k \<le> k'" by auto
  qed
  show ?thesis
    unfolding plan_grows_def
    using a1(1,3,4,5) b1(1,3,4,5) c by auto
qed

lemma plan_grows_init: "plan_grows st (init_dep_status dep st)"
  by (auto simp: plan_grows_def init_dep_status_def executed_def)

lemma cause_rebuild_effect:
  assumes "deps_rebuilds st (io_name tk) = Some k"
  shows "\<exists>st'. cause_rebuild st provider tk = Inr st' \<and>
           run_stages st' = insert (name provider) (run_stages st) \<and>
           deps_rebuilds st' = (deps_rebuilds st)(io_name tk \<mapsto> k + 1) \<and>
           f4cache st' = f4cache st \<and> storage st' = storage st \<and> executed st' = executed st \<and>
           os_map st' = os_map st \<and> dep_paths st' = dep_paths st \<and>
           stages_checked st' = stages_checked st"
  using assms by (auto simp: cause_rebuild_def Let_def sfprint_def executed_def)

lemma will_differ_cases:
  assumes "will_differ X st provider tk paths = Inr d"
  shows "(paths = PNone \<longrightarrow> \<not> d) \<and>
         (paths \<noteq> PNone \<longrightarrow> (\<exists>e. exists_on X st paths = Inr e)) \<and>
         (paths \<noteq> PNone \<and> exists_on X st paths = Inr False \<longrightarrow> d) \<and>
         (paths \<noteq> PNone \<and> exists_on X st paths = Inr True \<longrightarrow>
            d = ((\<exists>producer. os_map st (io_name tk) = Some producer \<and> name producer \<in> run_stages st) \<or>
                 (case f4cache st of
                    None \<Rightarrow> True
                  | Some c \<Rightarrow> dep_differ X (storage st) paths (name provider) c)))"
proof (cases "paths = PNone")
  case True
  with assms show ?thesis by (simp add: will_differ_def)
next
  case nn: False
  with assms obtain e where e: "exists_on X st paths = Inr e"
    by (cases "exists_on X st paths") (simp_all add: will_differ_def)
  show ?thesis
  proof (cases e)
    case False
    with assms nn e show ?thesis by (auto simp: will_differ_def)
  next
    case True
    with assms nn e have d: "d = flow_dep_will_differ X st (io_name tk) paths (name provider)"
      by (simp add: will_differ_def)
    have "flow_dep_will_differ X st (io_name tk) paths (name provider) =
            ((\<exists>producer. os_map st (io_name tk) = Some producer \<and> name producer \<in> run_stages st) \<or>
                 (case f4cache st of
                    None \<Rightarrow> True
                  | Some c \<Rightarrow> dep_differ X (storage st) paths (name provider) c))"
      by (cases "f4cache st"; cases "os_map st (io_name tk)")
         (simp_all add: flow_dep_will_differ_def dep_will_differ_def)
    with d nn e True show ?thesis by auto
  qed
qed

lemma process_take_cases:
  assumes pt: "process_take X provider tk s1 = Inr v1"
    and k: "deps_rebuilds s1 (io_name tk) = Some k"
  shows "if \<not> truthy (dict_get (dep_paths s1) (io_name tk)) \<and> io_spec tk = Req
         then (\<exists>s2. v1 = Abandoned s2 \<and> run_stages s2 = run_stages s1 \<and>
                 deps_rebuilds s2 = deps_rebuilds s1 \<and>
                 out s2 = out s1 @ [Unreachable (name provider) (io_name tk)])
         else (\<exists>d s2. will_differ X s1 provider tk (dict_get (dep_paths s1) (io_name tk)) = Inr d \<and>
                 v1 = Proceed s2 \<and>
                 run_stages s2 = (if d then insert (name provider) (run_stages s1) else run_stages s1) \<and>
                 deps_rebuilds s2 =
                   (if d then (deps_rebuilds s1)(io_name tk \<mapsto> k + 1) else deps_rebuilds s1))"
proof -
  let ?paths = "dict_get (dep_paths s1) (io_name tk)"
  let ?st1 = "s1\<lparr>value_overrides :=
                     (value_overrides s1)
                       (name provider :=
                          (value_overrides s1 (name provider))
                            (dep_value_str (io_name tk) \<mapsto> ?paths))\<rparr>"
  show ?thesis
  proof (cases "\<not> truthy ?paths \<and> io_spec tk = Req")
    case True
    with pt have "v1 = Abandoned (sfprint (Unreachable (name provider) (io_name tk)) ?st1)"
      by (auto simp: process_take_def Let_def)
    with True show ?thesis by (simp add: sfprint_def)
  next
    case False
    with pt obtain d where d: "will_differ X s1 provider tk ?paths = Inr d"
      by (cases "will_differ X s1 provider tk ?paths") (auto simp: process_take_def Let_def)
    show ?thesis
    proof (cases d)
      case True
      have "deps_rebuilds ?st1 (io_name tk) = Some k" using k by simp
      from cause_rebuild_effect[OF this, of provider] obtain s2 where
        c: "cause_rebuild ?st1 provider tk = Inr s2"
           "run_stages s2 = insert (name provider) (run_stages ?st1)"
           "deps_rebuilds s2 = (deps_rebuilds ?st1)(io_name tk \<mapsto> k + 1)" by blast
      from pt False d True c(1) have "v1 = Proceed s2"
        by (auto simp: process_take_def Let_def)
      with False d True c(2,3) show ?thesis by auto
    next
      case nd: False
      with pt False d have "v1 = Proceed ?st1" by (auto simp: process_take_def Let_def)
      with False d nd show ?thesis by auto
    qed
  qed
qed

lemma process_take_grows:
  assumes "process_take X provider tk st = Inr v"
  shows "plan_grows st (verdict_state v)"
proof -
  let ?paths = "dict_get (dep_paths st) (io_name tk)"
  let ?st1 = "st\<lparr>value_overrides :=
                     (value_overrides st)
                       (name provider :=
                          (value_overrides st (name provider))
                            (dep_value_str (io_name tk) \<mapsto> ?paths))\<rparr>"
  show ?thesis
  proof (cases "\<not> truthy ?paths \<and> io_spec tk = Req")
    case True
    with assms show ?thesis
      by (auto simp: process_take_def Let_def sfprint_def executed_def plan_grows_def)
  next
    case False
    with assms obtain d where d: "will_differ X st provider tk ?paths = Inr d"
      by (cases "will_differ X st provider tk ?paths") (auto simp: process_take_def Let_def)
    show ?thesis
    proof (cases d)
      case True
      with assms False d obtain st2 where c: "cause_rebuild ?st1 provider tk = Inr st2" "v = Proceed st2"
        by (cases "cause_rebuild ?st1 provider tk") (auto simp: process_take_def Let_def)
      from c(1) have "plan_grows st st2"
        by (auto simp: cause_rebuild_def Let_def sfprint_def executed_def plan_grows_def
                 split: option.splits if_splits)
      with c(2) show ?thesis by simp
    next
      case nd: False
      with assms False d have "v = Proceed ?st1" by (auto simp: process_take_def Let_def)
      then show ?thesis by (simp add: plan_grows_def executed_def)
    qed
  qed
qed

lemma cache_outputs_nocache:
  "f4cache st = None \<Longrightarrow> cache_outputs X vs st = Inr st' \<Longrightarrow> st' = st"
proof (induction vs)
  case Nil
  then show ?case by simp
next
  case (Cons v vs)
  then show ?case
    by (cases "v = PNone"; cases "exists_on X st v") simp_all
qed

lemma resolve_outputs_grows:
  assumes "resolve_outputs X provider st = Inr st'"
  shows "plan_grows st st'"
proof -
  from assms obtain outputs where
    m: "module_map X provider (config_mod_runctx X provider st) (storage st) = Inr outputs"
    by (cases "module_map X provider (config_mod_runctx X provider st) (storage st)")
       (simp_all add: resolve_outputs_def)
  from assms m obtain st1 where c: "cache_outputs X (map snd outputs) st = Inr st1"
    by (cases "cache_outputs X (map snd outputs) st") (simp_all add: resolve_outputs_def)
  let ?st2 = "st1\<lparr>stages_checked := insert (name provider) (stages_checked st1),
                  dep_paths := dep_paths st1 ++ map_of outputs\<rparr>"
  from assms m c obtain st3 where mm: "mark_missing_outputs X provider outputs ?st2 = Inr st3"
    by (cases "mark_missing_outputs X provider outputs ?st2")
       (simp_all add: resolve_outputs_def Let_def)
  from assms m c mm have v: "verify_outputs X provider outputs (produces provider) st3 = Inr st'"
    by (simp add: resolve_outputs_def Let_def)
  from cache_outputs_frame[OF c] obtain c' where f1: "st1 = st\<lparr>f4cache := c'\<rparr>" by blast
  have f1n: "f4cache st = None \<longrightarrow> st1 = st" using cache_outputs_nocache[OF _ c] by blast
  from mark_missing_outputs_frame[OF mm]
  have f2: "st3 = ?st2 \<or> st3 = ?st2\<lparr>run_stages := insert (name provider) (run_stages ?st2)\<rparr>" .
  from verify_outputs_frame[OF v] obtain vo where
    f3: "st' = st3\<lparr>os_map := os_map st', value_overrides := vo\<rparr>" by blast
  have g1: "plan_grows st st1" using f1 f1n
    by (cases "f4cache st") (auto simp: plan_grows_def executed_def)
  have g2: "plan_grows st1 st3" using f2 by (auto simp: plan_grows_def executed_def)
  have "run_stages st' = run_stages st3 \<and> deps_rebuilds st' = deps_rebuilds st3 \<and>
        f4cache st' = f4cache st3 \<and> storage st' = storage st3 \<and> out st' = out st3"
    by (subst f3, simp)+
  then have g3: "plan_grows st3 st'" by (simp add: plan_grows_def executed_def)
  from plan_grows_trans[OF g1 plan_grows_trans[OF g2 g3]] show ?thesis .
qed

lemma resolve_dependencies_grows:
  "resolve_dependencies X n dep st = Inr st' \<Longrightarrow> plan_grows st st'"
proof (rule resolve_dependencies_rel[where R = plan_grows and X = X and n = n and dep = dep])
  show "\<And>a b c. plan_grows a b \<Longrightarrow> plan_grows b c \<Longrightarrow> plan_grows a c" by (rule plan_grows_trans)
  show "\<And>st. plan_grows st st" by (rule plan_grows_refl)
  show "\<And>st dep. plan_grows st (init_dep_status dep st)" by (rule plan_grows_init)
  show "\<And>provider tk st v. process_take X provider tk st = Inr v \<Longrightarrow> plan_grows st (verdict_state v)"
    by (rule process_take_grows)
  show "\<And>provider st st'. resolve_outputs X provider st = Inr st' \<Longrightarrow> plan_grows st st'"
    by (rule resolve_outputs_grows)
qed

lemma resolve_takes_grows:
  "resolve_takes X n provider tks st = Inr v \<Longrightarrow> plan_grows st (verdict_state v)"
proof (rule resolve_takes_rel[where R = plan_grows and X = X and n = n])
  show "\<And>a b c. plan_grows a b \<Longrightarrow> plan_grows b c \<Longrightarrow> plan_grows a c" by (rule plan_grows_trans)
  show "\<And>st. plan_grows st st" by (rule plan_grows_refl)
  show "\<And>provider tk st v. process_take X provider tk st = Inr v \<Longrightarrow> plan_grows st (verdict_state v)"
    by (rule process_take_grows)
  show "\<And>dep st st'. resolve_dependencies X n dep st = Inr st' \<Longrightarrow> plan_grows st st'"
    by (rule resolve_dependencies_grows)
qed

lemma resolve_takes_split:
  "resolve_takes X n provider (pre @ tk # post) st = Inr v \<Longrightarrow>
   (\<exists>sa. resolve_takes X n provider pre st = Inr (Abandoned sa) \<and> v = Abandoned sa) \<or>
   (\<exists>s0 s1 v1. resolve_takes X n provider pre st = Inr (Proceed s0) \<and>
        resolve_dependencies X n (io_name tk) s0 = Inr s1 \<and>
        process_take X provider tk s1 = Inr v1 \<and>
        (case v1 of
           Abandoned s2 \<Rightarrow> v = Abandoned s2
         | Proceed s2 \<Rightarrow> resolve_takes X n provider post s2 = Inr v))"
proof (induction pre arbitrary: st)
  case Nil
  then show ?case
    by (auto split: sum.splits verdict.splits)
next
  case (Cons p pre)
  from Cons.prems obtain st1 where s1: "resolve_dependencies X n (io_name p) st = Inr st1"
    by (cases "resolve_dependencies X n (io_name p) st") simp_all
  from Cons.prems s1 obtain v1 where v1: "process_take X provider p st1 = Inr v1"
    by (cases "process_take X provider p st1") simp_all
  show ?case
  proof (cases v1)
    case (Abandoned st2)
    with s1 v1 have e: "resolve_takes X n provider (p # pre @ tk # post) st = Inr (Abandoned st2)"
      by simp
    with Cons.prems have "v = Abandoned st2" by simp
    moreover from Abandoned s1 v1
    have "resolve_takes X n provider (p # pre) st = Inr (Abandoned st2)" by simp
    ultimately show ?thesis by blast
  next
    case (Proceed st2)
    with Cons.prems s1 v1 have "resolve_takes X n provider (pre @ tk # post) st2 = Inr v" by simp
    moreover from s1 v1 Proceed have "resolve_takes X n provider (p # pre) st = resolve_takes X n provider pre st2"
      by simp
    ultimately show ?thesis using Cons.IH[of st2] by simp
  qed
qed

lemma resolve_dependencies_stage:
  assumes run: "resolve_dependencies X (Suc n) dep st = Inr st'"
    and prov: "os_map st dep = Some provider"
    and fresh: "name provider \<notin> stages_checked st"
  shows "\<exists>v. resolve_takes X n provider (takes provider) (init_dep_status dep st) = Inr v \<and>
             (case v of
                Abandoned sa \<Rightarrow> st' = sa
              | Proceed sx \<Rightarrow> resolve_outputs X provider sx = Inr st')"
proof -
  let ?st0 = "init_dep_status dep st"
  have o: "os_map ?st0 dep = Some provider" "name provider \<notin> stages_checked ?st0"
    using prov fresh by (simp_all add: init_dep_status_def)
  note a = run[unfolded resolve_dependencies_Suc]
  from a o obtain v where v: "resolve_takes X n provider (takes provider) ?st0 = Inr v"
    by (cases "resolve_takes X n provider (takes provider) ?st0") simp_all
  with a o show ?thesis by (cases v) simp_all
qed

text \<open>
  Claim C4. Planning examines every input of the stage it resolves, in order, unless it
  has abandoned the stage at an earlier input. Let \<open>tk\<close> be an input of the stage
  \<open>provider\<close> and \<open>s1\<close> the flow after the recursive resolution of \<open>tk\<close>. A
  Required input without a usable path abandons the stage, with the diagnostic naming the
  stage and the input. Otherwise the verdict \<open>d\<close> is: false when the path is absent; true
  when the path is resolved but does not exist on storage; and, when it exists, true
  exactly when the producer of the input is in the run set or the staleness query for the
  path and this stage reports a difference (which it always does when caching is
  disabled). A true verdict adds the stage to the run set and increments the rebuild
  counter of the input, which the recursive call has initialised, and both are still so
  when the resolution of the stage returns; a false verdict leaves the run set and the
  counters alone.
\<close>

theorem will_cause_rebuild_verdict:
  assumes run: "resolve_dependencies X (Suc n) dep st = Inr st'"
    and prov: "os_map st dep = Some provider"
    and fresh: "name provider \<notin> stages_checked st"
    and inp: "takes provider = pre @ tk # post"
  shows "(\<exists>sa. resolve_takes X n provider pre (init_dep_status dep st) = Inr (Abandoned sa) \<and> st' = sa) \<or>
    (\<exists>s0 s1 k.
       resolve_takes X n provider pre (init_dep_status dep st) = Inr (Proceed s0) \<and>
       resolve_dependencies X n (io_name tk) s0 = Inr s1 \<and>
       deps_rebuilds s1 (io_name tk) = Some k \<and>
       (if \<not> truthy (dict_get (dep_paths s1) (io_name tk)) \<and> io_spec tk = Req
        then process_take X provider tk s1 = Inr (Abandoned st') \<and>
             out st' = out s1 @ [Unreachable (name provider) (io_name tk)]
        else (\<exists>d s2.
               will_differ X s1 provider tk (dict_get (dep_paths s1) (io_name tk)) = Inr d \<and>
               (dict_get (dep_paths s1) (io_name tk) = PNone \<longrightarrow> \<not> d) \<and>
               (dict_get (dep_paths s1) (io_name tk) \<noteq> PNone \<longrightarrow>
                  (\<exists>e. exists_on X s1 (dict_get (dep_paths s1) (io_name tk)) = Inr e)) \<and>
               (dict_get (dep_paths s1) (io_name tk) \<noteq> PNone \<and>
                  exists_on X s1 (dict_get (dep_paths s1) (io_name tk)) = Inr False \<longrightarrow> d) \<and>
               (dict_get (dep_paths s1) (io_name tk) \<noteq> PNone \<and>
                  exists_on X s1 (dict_get (dep_paths s1) (io_name tk)) = Inr True \<longrightarrow>
                  d = ((\<exists>producer. os_map s1 (io_name tk) = Some producer \<and>
                                    name producer \<in> run_stages s1) \<or>
                       (case f4cache s1 of
                          None \<Rightarrow> True
                        | Some c \<Rightarrow> dep_differ X (storage s1) (dict_get (dep_paths s1) (io_name tk))
                                      (name provider) c))) \<and>
               process_take X provider tk s1 = Inr (Proceed s2) \<and>
               run_stages s2 = (if d then insert (name provider) (run_stages s1) else run_stages s1) \<and>
               deps_rebuilds s2 =
                 (if d then (deps_rebuilds s1)(io_name tk \<mapsto> k + 1) else deps_rebuilds s1) \<and>
               (d \<longrightarrow> name provider \<in> run_stages st' \<and>
                      (\<exists>k'. deps_rebuilds st' (io_name tk) = Some k' \<and> k + 1 \<le> k')))))"
proof -
  let ?st0 = "init_dep_status dep st"
  let ?paths = "\<lambda>s1. dict_get (dep_paths s1) (io_name tk)"
  from resolve_dependencies_stage[OF run prov fresh] obtain v where
    v: "resolve_takes X n provider (takes provider) ?st0 = Inr v"
       "case v of Abandoned sa \<Rightarrow> st' = sa | Proceed sx \<Rightarrow> resolve_outputs X provider sx = Inr st'"
    by blast
  have fin: "plan_grows (verdict_state v) st'"
  proof (cases v)
    case (Abandoned sa)
    with v(2) show ?thesis by (simp add: plan_grows_refl)
  next
    case (Proceed sx)
    with v(2) show ?thesis by (simp add: resolve_outputs_grows)
  qed
  from v(1) inp have "resolve_takes X n provider (pre @ tk # post) ?st0 = Inr v" by simp
  from resolve_takes_split[OF this]
  show ?thesis
  proof (elim disjE exE conjE)
    fix sa assume a: "resolve_takes X n provider pre ?st0 = Inr (Abandoned sa)" "v = Abandoned sa"
    with v(2) have "st' = sa" by simp
    with a(1) show ?thesis by blast
  next
    fix s0 s1 v1
    assume a: "resolve_takes X n provider pre ?st0 = Inr (Proceed s0)"
      and b: "resolve_dependencies X n (io_name tk) s0 = Inr s1"
      and c: "process_take X provider tk s1 = Inr v1"
      and d: "case v1 of Abandoned s2 \<Rightarrow> v = Abandoned s2
              | Proceed s2 \<Rightarrow> resolve_takes X n provider post s2 = Inr v"
    from resolve_dependencies_counter[OF b] obtain k where k: "deps_rebuilds s1 (io_name tk) = Some k"
      by blast
    note pc = process_take_cases[OF c k]
    have body: "if \<not> truthy (?paths s1) \<and> io_spec tk = Req
        then process_take X provider tk s1 = Inr (Abandoned st') \<and>
             out st' = out s1 @ [Unreachable (name provider) (io_name tk)]
        else (\<exists>d s2.
               will_differ X s1 provider tk (?paths s1) = Inr d \<and>
               (?paths s1 = PNone \<longrightarrow> \<not> d) \<and>
               (?paths s1 \<noteq> PNone \<longrightarrow> (\<exists>e. exists_on X s1 (?paths s1) = Inr e)) \<and>
               (?paths s1 \<noteq> PNone \<and> exists_on X s1 (?paths s1) = Inr False \<longrightarrow> d) \<and>
               (?paths s1 \<noteq> PNone \<and> exists_on X s1 (?paths s1) = Inr True \<longrightarrow>
                  d = ((\<exists>producer. os_map s1 (io_name tk) = Some producer \<and>
                                    name producer \<in> run_stages s1) \<or>
                       (case f4cache s1 of
                          None \<Rightarrow> True
                        | Some c \<Rightarrow> dep_differ X (storage s1) (?paths s1) (name provider) c))) \<and>
               process_take X provider tk s1 = Inr (Proceed s2) \<and>
               run_stages s2 = (if d then insert (name provider) (run_stages s1) else run_stages s1) \<and>
               deps_rebuilds s2 =
                 (if d then (deps_rebuilds s1)(io_name tk \<mapsto> k + 1) else deps_rebuilds s1) \<and>
               (d \<longrightarrow> name provider \<in> run_stages st' \<and>
                      (\<exists>k'. deps_rebuilds st' (io_name tk) = Some k' \<and> k + 1 \<le> k')))"
    proof (cases "\<not> truthy (?paths s1) \<and> io_spec tk = Req")
      case True
      with pc obtain s2 where s2: "v1 = Abandoned s2"
         "out s2 = out s1 @ [Unreachable (name provider) (io_name tk)]" by auto
      with d have "v = Abandoned s2" by simp
      with v(2) have "st' = s2" by simp
      with True c s2 show ?thesis by simp
    next
      case False
      with pc obtain dd s2 where p:
        "will_differ X s1 provider tk (?paths s1) = Inr dd" "v1 = Proceed s2"
        "run_stages s2 = (if dd then insert (name provider) (run_stages s1) else run_stages s1)"
        "deps_rebuilds s2 = (if dd then (deps_rebuilds s1)(io_name tk \<mapsto> k + 1) else deps_rebuilds s1)"
        by auto
      note wc = will_differ_cases[OF p(1)]
      from d p(2) have "resolve_takes X n provider post s2 = Inr v" by simp
      from plan_grows_trans[OF resolve_takes_grows[OF this] fin] have g: "plan_grows s2 st'" .
      have eff: "dd \<longrightarrow> name provider \<in> run_stages st' \<and>
                      (\<exists>k'. deps_rebuilds st' (io_name tk) = Some k' \<and> k + 1 \<le> k')"
      proof
        assume dd
        with p(3,4) have "name provider \<in> run_stages s2" "deps_rebuilds s2 (io_name tk) = Some (k + 1)"
          by simp_all
        with g show "name provider \<in> run_stages st' \<and>
                      (\<exists>k'. deps_rebuilds st' (io_name tk) = Some k' \<and> k + 1 \<le> k')"
          unfolding plan_grows_def by blast
      qed
      from c p(2) have pt2: "process_take X provider tk s1 = Inr (Proceed s2)" by simp
      have "\<exists>d s2.
               will_differ X s1 provider tk (?paths s1) = Inr d \<and>
               (?paths s1 = PNone \<longrightarrow> \<not> d) \<and>
               (?paths s1 \<noteq> PNone \<longrightarrow> (\<exists>e. exists_on X s1 (?paths s1) = Inr e)) \<and>
               (?paths s1 \<noteq> PNone \<and> exists_on X s1 (?paths s1) = Inr False \<longrightarrow> d) \<and>
               (?paths s1 \<noteq> PNone \<and> exists_on X s1 (?paths s1) = Inr True \<longrightarrow>
                  d = ((\<exists>producer. os_map s1 (io_name tk) = Some producer \<and>
                                    name producer \<in> run_stages s1) \<or>
                       (case f4cache s1 of
                          None \<Rightarrow> True
                        | Some c \<Rightarrow> dep_differ X (storage s1) (?paths s1) (name provider) c))) \<and>
               process_take X provider tk s1 = Inr (Proceed s2) \<and>
               run_stages s2 = (if d then insert (name provider) (run_stages s1) else run_stages s1) \<and>
               deps_rebuilds s2 =
                 (if d then (deps_rebuilds s1)(io_name tk \<mapsto> k + 1) else deps_rebuilds s1) \<and>
               (d \<longrightarrow> name provider \<in> run_stages st' \<and>
                      (\<exists>k'. deps_rebuilds st' (io_name tk) = Some k' \<and> k + 1 \<le> k'))"
        apply (rule exI[of _ dd])
        apply (rule exI[of _ s2])
        apply (intro conjI)
        apply (rule p(1))
        apply (rule wc[THEN conjunct1])
        apply (rule wc[THEN conjunct2, THEN conjunct1])
        apply (rule wc[THEN conjunct2, THEN conjunct2, THEN conjunct1])
        apply (rule wc[THEN conjunct2, THEN conjunct2, THEN conjunct2])
        apply (rule pt2)
        apply (rule p(3))
        apply (rule p(4))
        apply (rule eff)
        done
      then show ?thesis by (simp only: False if_False)
    qed
    from a b k body show ?thesis by blast
  qed
qed

lemma flow_init_start:
  "flow_init X fuel target cache vo w =
     (case map_outputs_to_stages (stages X) of
        Inl e \<Rightarrow> Inl e
      | Inr os \<Rightarrow>
          (case filter_existing_deps X w (dependency_overrides X) of
             Inl e \<Rightarrow> Inl e
           | Inr existing \<Rightarrow>
               resolve_dependencies X fuel target (flow_start X os existing cache vo w)))"
  by (simp add: flow_init_def flow_start_def split: sum.splits)

lemma ex_ab_start:
  "flow_init env_ab fuel target cache (\<lambda>s. Map.empty) w =
     resolve_dependencies env_ab fuel target (flow_start env_ab os_ab [] cache (\<lambda>s. Map.empty) w)"
  by (simp add: flow_init_start map_outputs_to_stages_def env_ab_def example_env_def stage_a_def
                stage_b_def os_ab_def)

lemma ex_ab_x:
  "\<exists>s. resolve_dependencies env_ab (Suc 0) ''x''
          (init_dep_status ''bitstream''
             (flow_start env_ab os_ab [] (Some Map.empty) (\<lambda>s. Map.empty) files_ab)) = Inr s \<and>
       dep_paths s ''x'' = Some (PStr ''x.out'') \<and> storage s = files_ab \<and>
       f4cache s = Some Map.empty \<and> os_map s = os_ab \<and> run_stages s = {} \<and>
       deps_rebuilds s ''x'' = Some 0"
  apply (simp add: resolve_dependencies_Suc del: resolve_dependencies.simps)
  apply (simp add: ab2defs init_dep_status_def flow_start_def os_ab_def)
  apply (simp add: ab2defs resolve_outputs_def config_mod_runctx_def oracle_cache_deps_def Let_def)
  done

lemma ex_ab_stale:
  "\<exists>p. flow_init env_ab (Suc (Suc 0)) ''bitstream'' (Some Map.empty) (\<lambda>s. Map.empty) files_ab = Inr p"
  apply (simp add: ex_ab_start resolve_dependencies_Suc del: resolve_dependencies.simps)
  apply (simp add: ab2defs init_dep_status_def flow_start_def os_ab_def resolve_dependencies_Suc
              del: resolve_dependencies.simps)
  apply (simp add: ab2defs init_dep_status_def resolve_outputs_def
                   config_mod_runctx_def process_take_def will_differ_def flow_dep_will_differ_def
                   dep_will_differ_def oracle_get_status_def oracle_cache_deps_def
                   cause_rebuild_def Let_def)
  done

theorem will_cause_rebuild_verdict_witness:
  "\<exists>p. flow_init env_ab (Suc (Suc 0)) ''bitstream'' (Some Map.empty) (\<lambda>s. Map.empty) files_ab = Inr p \<and>
       ''B'' \<in> run_stages p \<and> (\<exists>k'. deps_rebuilds p ''x'' = Some k' \<and> 1 \<le> k')"
proof -
  let ?st = "flow_start env_ab os_ab [] (Some Map.empty) (\<lambda>s. Map.empty) files_ab"
  let ?tk = "\<lparr>io_name = ''x'', io_spec = Req\<rparr>"
  from ex_ab_stale obtain p where
    p: "flow_init env_ab (Suc (Suc 0)) ''bitstream'' (Some Map.empty) (\<lambda>s. Map.empty) files_ab = Inr p"
    by blast
  then have run: "resolve_dependencies env_ab (Suc (Suc 0)) ''bitstream'' ?st = Inr p"
    by (simp add: ex_ab_start)
  have prov: "os_map ?st ''bitstream'' = Some stage_b" by (simp add: flow_start_def os_ab_def)
  have fresh: "name stage_b \<notin> stages_checked ?st" by (simp add: flow_start_def)
  have inp: "takes stage_b = [] @ ?tk # []" by (simp add: stage_b_def)
  from ex_ab_x obtain sx where
    sx: "resolve_dependencies env_ab (Suc 0) ''x'' (init_dep_status ''bitstream'' ?st) = Inr sx"
        "dep_paths sx ''x'' = Some (PStr ''x.out'')" "storage sx = files_ab"
        "f4cache sx = Some Map.empty" "os_map sx = os_ab" "run_stages sx = {}"
        "deps_rebuilds sx ''x'' = Some 0"
    by blast
  have px: "dict_get (dep_paths sx) ''x'' = PStr ''x.out''" using sx(2) by (simp add: dict_get_def)
  have ex: "exists_on env_ab sx (PStr ''x.out'') = Inr True"
    using sx(3) by (simp add: exists_on_def env_ab_path_exists files_ab_def)
  from will_cause_rebuild_verdict[OF run prov fresh inp]
  have "''B'' \<in> run_stages p \<and> (\<exists>k'. deps_rebuilds p ''x'' = Some k' \<and> 1 \<le> k')"
    apply (elim disjE exE conjE)
     apply simp
    apply (clarsimp simp add: sx simp del: resolve_dependencies.simps)
    apply (clarsimp simp add: sx px ex stage_names simp del: resolve_dependencies.simps)
    apply (simp add: env_ab_def example_env_def oracle_get_status_def files_ab_def)
    done
  with p show ?thesis by blast
qed

subsection \<open>Planning: the outputs a module predicts\<close>

lemma resolve_takes_executed:
  "resolve_takes X n provider tks st = Inr v \<Longrightarrow> executed (verdict_state v) = executed st"
  using resolve_takes_grows[of X n provider tks st v] by (simp add: plan_grows_def)

lemma resolve_dependencies_predicts:
  assumes prov: "os_map st dep = Some provider"
    and fresh: "name provider \<notin> stages_checked st"
    and loop: "resolve_takes X n provider (takes provider) (init_dep_status dep st) = Inr (Proceed s1)"
  shows "resolve_dependencies X (Suc n) dep st = resolve_outputs X provider s1"
proof -
  let ?st0 = "init_dep_status dep st"
  have o: "os_map ?st0 dep = Some provider" "name provider \<notin> stages_checked ?st0"
    using prov fresh by (simp_all add: init_dep_status_def)
  show ?thesis
    unfolding resolve_dependencies_Suc using o loop by simp
qed

text \<open>
  Claim C6, as amended. Let planning reach the prediction of a stage: the loop over the
  inputs has returned, in the flow \<open>s1\<close>, and the module predicts \<open>outputs\<close>. Assume
  that the predicted paths are strings or lists, so that their existence can be checked,
  and that the stage declares each output name once and these names are in the ownership
  map. No module has been executed so far. If a declared output is missing from the
  prediction and is Required, or is OnDemand and named by a dependency override, the
  resolution of the stage ends in the fatal error naming the stage and such an output.
  Otherwise the resolution succeeds, still without executing a module; every declared
  output missing from the prediction has lost its entry in the ownership map and all
  other entries are as before; later planning only ever removes entries and execution
  never touches the map, so a removed output has no producer for the rest of the flow.
\<close>

theorem predicted_outputs_contract:
  assumes prov: "os_map st dep = Some provider"
    and fresh: "name provider \<notin> stages_checked st"
    and loop: "resolve_takes X n provider (takes provider) (init_dep_status dep st) = Inr (Proceed s1)"
    and pred: "module_map X provider (config_mod_runctx X provider s1) (storage s1) = Inr outputs"
    and chk: "\<forall>v \<in> snd ` set outputs. v = PNone \<or> str_or_list v"
    and dist: "distinct (map io_name (produces provider))"
    and reg: "\<forall>oo \<in> set (produces provider). os_map s1 (io_name oo) \<noteq> None"
  shows "executed s1 = executed st \<and>
    ((\<exists>oo \<in> set (produces provider). io_name oo \<notin> fst ` set outputs \<and>
         (io_spec oo = Req \<or> (io_spec oo = Demand \<and> requested X oo))) \<longrightarrow>
     (\<exists>oo \<in> set (produces provider). io_name oo \<notin> fst ` set outputs \<and>
         (io_spec oo = Req \<or> (io_spec oo = Demand \<and> requested X oo)) \<and>
         resolve_dependencies X (Suc n) dep st = Inl (FatalNoMapping (name provider) (io_name oo)))) \<and>
    (\<not> (\<exists>oo \<in> set (produces provider). io_name oo \<notin> fst ` set outputs \<and>
         (io_spec oo = Req \<or> (io_spec oo = Demand \<and> requested X oo))) \<longrightarrow>
     (\<exists>st'. resolve_dependencies X (Suc n) dep st = Inr st' \<and>
         (\<forall>oo \<in> set (produces provider). io_name oo \<notin> fst ` set outputs \<longrightarrow>
            os_map st' (io_name oo) = None) \<and>
         (\<forall>m. m \<notin> io_name ` {oo \<in> set (produces provider). io_name oo \<notin> fst ` set outputs} \<longrightarrow>
              os_map st' m = os_map s1 m) \<and>
         executed st' = executed st \<and>
         (\<forall>m d2 st2. resolve_dependencies X m d2 st' = Inr st2 \<longrightarrow>
            (\<forall>nm. os_map st' nm = None \<longrightarrow> os_map st2 nm = None)) \<and>
         (\<forall>k d. os_map (outcome_state (build_dep X k d st')) = os_map st')))"
proof (intro conjI impI)
  from resolve_takes_executed[OF loop] show e1: "executed s1 = executed st"
    by (simp add: init_dep_status_def executed_def)
  note rd = resolve_dependencies_predicts[OF prov fresh loop]
  from resolve_outputs_unfold[OF pred chk] obtain st3 where
    u: "resolve_outputs X provider s1 = verify_outputs X provider outputs (produces provider) st3"
       "os_map st3 = os_map s1" "out st3 = out s1" by blast
  from reg u(2) have k: "\<forall>oo \<in> set (produces provider). os_map st3 (io_name oo) \<noteq> None" by simp
  {
    assume f: "\<exists>oo \<in> set (produces provider). io_name oo \<notin> fst ` set outputs \<and>
         (io_spec oo = Req \<or> (io_spec oo = Demand \<and> requested X oo))"
    from verify_outputs_fatal[OF dist k f, of provider]
    show "\<exists>oo \<in> set (produces provider). io_name oo \<notin> fst ` set outputs \<and>
         (io_spec oo = Req \<or> (io_spec oo = Demand \<and> requested X oo)) \<and>
         resolve_dependencies X (Suc n) dep st = Inl (FatalNoMapping (name provider) (io_name oo))"
      unfolding rd u(1) .
  }
  {
    assume f: "\<not> (\<exists>oo \<in> set (produces provider). io_name oo \<notin> fst ` set outputs \<and>
         (io_spec oo = Req \<or> (io_spec oo = Demand \<and> requested X oo)))"
    from verify_outputs_prune[OF dist k f, of provider] obtain st' where
      v: "verify_outputs X provider outputs (produces provider) st3 = Inr st'"
         "os_map st' = (\<lambda>n. if n \<in> io_name ` {oo \<in> set (produces provider). io_name oo \<notin> fst ` set outputs}
                              then None else os_map st3 n)"
         "out st' = out st3" by blast
    have r: "resolve_dependencies X (Suc n) dep st = Inr st'" unfolding rd u(1) by (rule v(1))
    have a: "\<forall>oo \<in> set (produces provider). io_name oo \<notin> fst ` set outputs \<longrightarrow>
               os_map st' (io_name oo) = None"
      unfolding v(2) by auto
    have b: "\<forall>m. m \<notin> io_name ` {oo \<in> set (produces provider). io_name oo \<notin> fst ` set outputs} \<longrightarrow>
              os_map st' m = os_map s1 m"
      unfolding v(2) u(2) by simp
    have c: "executed st' = executed st" using v(3) u(3) e1 by (simp add: executed_def)
    have d: "\<forall>m d2 st2. resolve_dependencies X m d2 st' = Inr st2 \<longrightarrow>
            (\<forall>nm. os_map st' nm = None \<longrightarrow> os_map st2 nm = None)"
      using resolve_dependencies_shrink by blast
    have e: "\<forall>k d. os_map (outcome_state (build_dep X k d st')) = os_map st'"
    proof (intro allI)
      fix k d
      from build_dep_frame[of st' X k d]
      show "os_map (outcome_state (build_dep X k d st')) = os_map st'"
        by (simp add: exec_frame_def)
    qed
    from r a b c d e
    show "\<exists>st'. resolve_dependencies X (Suc n) dep st = Inr st' \<and>
         (\<forall>oo \<in> set (produces provider). io_name oo \<notin> fst ` set outputs \<longrightarrow>
            os_map st' (io_name oo) = None) \<and>
         (\<forall>m. m \<notin> io_name ` {oo \<in> set (produces provider). io_name oo \<notin> fst ` set outputs} \<longrightarrow>
              os_map st' m = os_map s1 m) \<and>
         executed st' = executed st \<and>
         (\<forall>m d2 st2. resolve_dependencies X m d2 st' = Inr st2 \<longrightarrow>
            (\<forall>nm. os_map st' nm = None \<longrightarrow> os_map st2 nm = None)) \<and>
         (\<forall>k d. os_map (outcome_state (build_dep X k d st')) = os_map st')"
      by blast
  }
qed

lemma ex_c_start:
  "flow_init (env_c [(''b'', PStr ''b.given'')]) fuel target None (\<lambda>s. Map.empty) Map.empty =
     resolve_dependencies (env_c [(''b'', PStr ''b.given'')]) fuel target
       (flow_start (env_c [(''b'', PStr ''b.given'')]) os_c [] None (\<lambda>s. Map.empty) Map.empty)"
  "flow_init (env_c []) fuel target None (\<lambda>s. Map.empty) Map.empty =
     resolve_dependencies (env_c []) fuel target
       (flow_start (env_c []) os_c [] None (\<lambda>s. Map.empty) Map.empty)"
  by (simp_all add: flow_init_start map_outputs_to_stages_def env_c_def example_env_def stage_c_def
                    os_c_def)

theorem predicted_outputs_contract_witness:
  "flow_init (env_c [(''b'', PStr ''b.given'')]) (Suc 0) ''a'' None (\<lambda>s. Map.empty) Map.empty =
     Inl (FatalNoMapping ''C'' ''b'') \<and>
   (\<exists>p. flow_init (env_c []) (Suc 0) ''a'' None (\<lambda>s. Map.empty) Map.empty = Inr p \<and>
      os_map p ''b'' = None \<and> os_map p ''a'' = Some stage_c \<and> executed p = [])"
proof -
  let ?X1 = "env_c [(''b'', PStr ''b.given'')]"
  let ?X2 = "env_c []"
  let ?s1 = "flow_start ?X1 os_c [] None (\<lambda>s. Map.empty) Map.empty"
  let ?s2 = "flow_start ?X2 os_c [] None (\<lambda>s. Map.empty) Map.empty"
  let ?o = "[(''a'', PStr ''a.out'')]"
  note defs = env_c_def example_env_def flow_start_def os_c_def stage_c_def predict_c_def
     requested_def init_dep_status_def
  have prov: "os_map ?s1 ''a'' = Some stage_c" "os_map ?s2 ''a'' = Some stage_c"
    by (simp_all add: flow_start_def os_c_def)
  have fresh: "name stage_c \<notin> stages_checked ?s1" "name stage_c \<notin> stages_checked ?s2"
    by (simp_all add: flow_start_def)
  have loop: "resolve_takes ?X1 0 stage_c (takes stage_c) (init_dep_status ''a'' ?s1) =
                Inr (Proceed (init_dep_status ''a'' ?s1))"
     "resolve_takes ?X2 0 stage_c (takes stage_c) (init_dep_status ''a'' ?s2) =
                Inr (Proceed (init_dep_status ''a'' ?s2))"
    by (simp_all add: stage_c_def)
  have pred: "module_map ?X1 stage_c (config_mod_runctx ?X1 stage_c (init_dep_status ''a'' ?s1))
                (storage (init_dep_status ''a'' ?s1)) = Inr ?o"
     "module_map ?X2 stage_c (config_mod_runctx ?X2 stage_c (init_dep_status ''a'' ?s2))
                (storage (init_dep_status ''a'' ?s2)) = Inr ?o"
    by (simp_all add: env_c_def example_env_def predict_c_def)
  have chk: "\<forall>v \<in> snd ` set ?o. v = PNone \<or> str_or_list v" by simp
  have dist: "distinct (map io_name (produces stage_c))" by (simp add: stage_c_def)
  have reg: "\<forall>oo \<in> set (produces stage_c). os_map (init_dep_status ''a'' ?s1) (io_name oo) \<noteq> None"
     "\<forall>oo \<in> set (produces stage_c). os_map (init_dep_status ''a'' ?s2) (io_name oo) \<noteq> None"
    by (simp_all add: defs)
  have must: "\<exists>oo \<in> set (produces stage_c). io_name oo \<notin> fst ` set ?o \<and>
         (io_spec oo = Req \<or> (io_spec oo = Demand \<and> requested ?X1 oo))"
    by (simp add: defs)
  have free: "\<not> (\<exists>oo \<in> set (produces stage_c). io_name oo \<notin> fst ` set ?o \<and>
         (io_spec oo = Req \<or> (io_spec oo = Demand \<and> requested ?X2 oo)))"
    by (simp add: defs)
  note t1 = predicted_outputs_contract[OF prov(1) fresh(1) loop(1) pred(1) chk dist reg(1)]
  note t2 = predicted_outputs_contract[OF prov(2) fresh(2) loop(2) pred(2) chk dist reg(2)]
  from t1[THEN conjunct2, THEN conjunct1, rule_format, OF must] obtain oo where
    f: "oo \<in> set (produces stage_c)" "io_name oo \<notin> fst ` set ?o"
       "resolve_dependencies ?X1 (Suc 0) ''a'' ?s1 = Inl (FatalNoMapping (name stage_c) (io_name oo))"
    by blast
  from f(1,2) have "io_name oo = ''b''" by (auto simp: stage_c_def)
  with f(3) have c1: "flow_init ?X1 (Suc 0) ''a'' None (\<lambda>s. Map.empty) Map.empty =
                       Inl (FatalNoMapping ''C'' ''b'')"
    by (simp add: ex_c_start(1) stage_c_def)
  from t2[THEN conjunct2, THEN conjunct2, rule_format, OF free] obtain p where
    p: "resolve_dependencies ?X2 (Suc 0) ''a'' ?s2 = Inr p"
       "\<forall>oo \<in> set (produces stage_c). io_name oo \<notin> fst ` set ?o \<longrightarrow> os_map p (io_name oo) = None"
       "\<forall>m. m \<notin> io_name ` {oo \<in> set (produces stage_c). io_name oo \<notin> fst ` set ?o} \<longrightarrow>
              os_map p m = os_map (init_dep_status ''a'' ?s2) m"
       "executed p = executed ?s2"
    by blast
  from p(1) have c2: "flow_init ?X2 (Suc 0) ''a'' None (\<lambda>s. Map.empty) Map.empty = Inr p"
    by (simp add: ex_c_start(2))
  from p(2) have c3: "os_map p ''b'' = None" by (simp add: stage_c_def)
  have "''a'' \<notin> io_name ` {oo \<in> set (produces stage_c). io_name oo \<notin> fst ` set ?o}"
    by (auto simp: stage_c_def)
  with p(3) have "os_map p ''a'' = os_map (init_dep_status ''a'' ?s2) ''a''" by blast
  then have c4: "os_map p ''a'' = Some stage_c" by (simp add: defs)
  from p(4) have c5: "executed p = []" by (simp add: flow_start_def executed_def)
  from c1 c2 c3 c4 c5 show ?thesis by blast
qed

text \<open>
  The claim C6 as stated fails in two ways. A Required output is missing from a
  prediction that gives a named mapping as a path: planning ends in the exception of the
  existence check, not in the configuration error. A Maybe output that the stage declares
  twice is missing from the prediction: its second removal finds no entry and planning
  ends in \<^verbatim>\<open>KeyError\<close>.
\<close>

theorem prediction_not_validated:
  "\<lparr>io_name = ''a'', io_spec = Req\<rparr> \<in> set (produces stage_d) \<and>
   ''a'' \<notin> fst ` set (predict_named stage_d) \<and>
   flow_init env_named (Suc 0) ''b'' None (\<lambda>s. Map.empty) Map.empty =
     Inl (ReqExistsError (PDict [(''bit'', PStr ''b.out'')])) \<and>
   \<lparr>io_name = ''y'', io_spec = Maybe\<rparr> \<in> set (produces stage_m) \<and>
   ''y'' \<notin> fst ` set (predict_z stage_m) \<and>
   flow_init env_m (Suc 0) ''z'' None (\<lambda>s. Map.empty) Map.empty = Inl (KeyError ''y'')"
proof -
  have a: "flow_init env_named (Suc 0) ''b'' None (\<lambda>s. Map.empty) Map.empty =
     Inl (ReqExistsError (PDict [(''bit'', PStr ''b.out'')]))"
    apply (simp add: flow_init_def map_outputs_to_stages_def resolve_dependencies_Suc
                del: resolve_dependencies.simps)
    apply (simp add: env_named_def example_env_def stage_d_def init_dep_status_def dict_get_def)
    apply (simp add: resolve_outputs_def predict_named_def exists_on_def)
    done
  have b: "flow_init env_m (Suc 0) ''z'' None (\<lambda>s. Map.empty) Map.empty = Inl (KeyError ''y'')"
    apply (simp add: flow_init_def map_outputs_to_stages_def resolve_dependencies_Suc
                del: resolve_dependencies.simps)
    apply (simp add: env_m_def example_env_def stage_m_def init_dep_status_def dict_get_def)
    apply (simp add: resolve_outputs_def predict_z_def exists_on_def dict_get_def Let_def
                     config_mod_runctx_def)
    done
  from a b show ?thesis by (simp add: stage_d_def stage_m_def predict_named_def predict_z_def)
qed

subsection \<open>Planning and execution with caching disabled\<close>










subsection \<open>Running a flow again\<close>





























end
